theory Spec2Isabelle
  imports Main "HOL-Library.Word" "HOL-Library.AList"
begin

unbundle bit_operations_syntax

section \<open>The commit log of Gibson-Gichuru/prolog, embedded in HOL\<close>

text \<open>
  The development follows the Go sources of package \<^verbatim>\<open>log\<close> (store.go, index.go,
  segment.go, log.go) and of package \<^verbatim>\<open>discovery\<close> (membership.go). Every Go
  function that matters below has one HOL function of the same name; a method
  \<^verbatim>\<open>(s *segment) Append\<close> is written \<open>segment_Append\<close>. Mutation is explicit state
  passing: a function takes the data directory and the object it works on and returns
  them updated, next to its result. A Go error return is a value of the sum type
  \<open>error + 'a\<close> (\<open>Inl\<close> the error) or of \<open>error option\<close>; a Go run-time panic (index
  out of range, nil dereference) is the error \<open>Panic\<close>.

  What the environment does is fixed as follows.
  \<^item> The data directory is a finite table from file names to contents. System calls
    fail only for the reasons written out in the definitions (a closed file, a
    missing name, a negative length, an empty mapping); disks do not fill up.
  \<^item> One directory is used by one \<^verbatim>\<open>Log\<close> value at a time, as the specification
    demands. A file is identified with its name.
  \<^item> \<^verbatim>\<open>proto.Marshal\<close> and \<^verbatim>\<open>proto.Unmarshal\<close> belong to a library; they are
    parameters of the model (a \<open>codec\<close>).
  \<^item> The lock of the \<^verbatim>\<open>Log\<close> serialises its methods, so each method is one atomic
    step.
\<close>

subsection \<open>Machine integers, bytes and errors\<close>

type_synonym byte = "8 word"
type_synonym uint32 = "32 word"
type_synonym uint64 = "64 word"

datatype error =
    EOF
  | ErrClosed
  | ErrNotExist
  | ErrInvalid
  | ErrNegativeOffset
  | ErrSyntax
  | ErrRange
  | ErrCodec
  | ErrorOffsetOutOfRange uint64
  | Panic

text \<open>\<^verbatim>\<open>enc = binary.BigEndian\<close>. The callers hand over slices of exactly four and
  eight bytes.\<close>

definition PutUint32 :: "uint32 \<Rightarrow> byte list" where
  "PutUint32 v = [ucast (drop_bit 24 v), ucast (drop_bit 16 v), ucast (drop_bit 8 v), ucast v]"

definition Uint32 :: "byte list \<Rightarrow> uint32" where
  "Uint32 b =
     ucast (b ! 3) OR push_bit 8 (ucast (b ! 2)) OR push_bit 16 (ucast (b ! 1)) OR
     push_bit 24 (ucast (b ! 0))"

definition PutUint64 :: "uint64 \<Rightarrow> byte list" where
  "PutUint64 v =
     [ucast (drop_bit 56 v), ucast (drop_bit 48 v), ucast (drop_bit 40 v),
      ucast (drop_bit 32 v), ucast (drop_bit 24 v), ucast (drop_bit 16 v),
      ucast (drop_bit 8 v), ucast v]"

definition Uint64 :: "byte list \<Rightarrow> uint64" where
  "Uint64 b =
     ucast (b ! 7) OR push_bit 8 (ucast (b ! 6)) OR push_bit 16 (ucast (b ! 5)) OR
     push_bit 24 (ucast (b ! 4)) OR push_bit 32 (ucast (b ! 3)) OR push_bit 40 (ucast (b ! 2)) OR
     push_bit 48 (ucast (b ! 1)) OR push_bit 56 (ucast (b ! 0))"

definition offWidth :: uint64 where "offWidth = 4"
definition posWidth :: uint64 where "posWidth = 8"
definition endWidth :: uint64 where "endWidth = offWidth + posWidth"
definition lenWidth :: nat where "lenWidth = 8"

subsection \<open>Records of the API and the configuration\<close>

text \<open>\<^verbatim>\<open>message Record { bytes value = 1; uint64 offset = 2; }\<close>\<close>

record api_Record =
  Value :: "byte list"
  Offset :: uint64

text \<open>The protobuf library, as a parameter.\<close>

record codec =
  Marshal :: "api_Record \<Rightarrow> error + byte list"
  Unmarshal :: "byte list \<Rightarrow> error + api_Record"

text \<open>\<^verbatim>\<open>Config.Segment\<close> of package log. Its declaration (config.go) is not among the
  sources; the three fields and their type \<^verbatim>\<open>uint64\<close> are read off their uses in
  log.go, segment.go and the tests.\<close>

record Config =
  MaxStoreBytes :: uint64
  MaxIndexBytes :: uint64
  InitialOffset :: uint64

subsection \<open>The data directory\<close>

type_synonym dir = "(string \<times> byte list) list"

definition os_ReadDir :: "dir \<Rightarrow> string list" where
  "os_ReadDir d = map fst d"

definition content :: "dir \<Rightarrow> string \<Rightarrow> byte list" where
  "content d name = (case map_of d name of None \<Rightarrow> [] | Some c \<Rightarrow> c)"

text \<open>\<^verbatim>\<open>os.OpenFile(name, O_RDWR|O_CREATE|..., 0644)\<close>: the file is created empty when
  it does not exist.\<close>

definition os_OpenFile :: "dir \<Rightarrow> string \<Rightarrow> dir" where
  "os_OpenFile d name = (case map_of d name of None \<Rightarrow> d @ [(name, [])] | Some _ \<Rightarrow> d)"

definition os_Stat :: "dir \<Rightarrow> string \<Rightarrow> error + nat" where
  "os_Stat d name = (case map_of d name of None \<Rightarrow> Inl ErrNotExist | Some c \<Rightarrow> Inr (length c))"

text \<open>\<^verbatim>\<open>truncate(2)\<close>: a shorter file is cut, a longer one is filled with zero bytes; a
  negative length is refused.\<close>

definition resize :: "nat \<Rightarrow> byte list \<Rightarrow> byte list" where
  "resize n c = take n c @ replicate (n - length c) 0"

definition os_Truncate :: "dir \<Rightarrow> string \<Rightarrow> int \<Rightarrow> error + dir" where
  "os_Truncate d name n =
     (case map_of d name of
        None \<Rightarrow> Inl ErrNotExist
      | Some c \<Rightarrow> if n < 0 then Inl ErrInvalid else Inr (AList.update name (resize (nat n) c) d))"

definition os_Remove :: "dir \<Rightarrow> string \<Rightarrow> error + dir" where
  "os_Remove d name =
     (case map_of d name of None \<Rightarrow> Inl ErrNotExist | Some _ \<Rightarrow> Inr (AList.delete name d))"

text \<open>A write through a handle. The store file is opened with \<^verbatim>\<open>O_APPEND\<close>, so the
  bytes go to the end of the file. Bytes written to a name that is gone would go to an
  unlinked file, which nothing can read again: the directory is unchanged.\<close>

definition write_end :: "dir \<Rightarrow> string \<Rightarrow> byte list \<Rightarrow> dir" where
  "write_end d name p =
     (case map_of d name of None \<Rightarrow> d | Some c \<Rightarrow> AList.update name (c @ p) d)"

definition write_at :: "dir \<Rightarrow> string \<Rightarrow> nat \<Rightarrow> byte list \<Rightarrow> dir" where
  "write_at d name pos p =
     (case map_of d name of
        None \<Rightarrow> d
      | Some c \<Rightarrow> AList.update name (take pos c @ p @ drop (pos + length p) c) d)"

subsection \<open>store.go\<close>

text \<open>\<^verbatim>\<open>type Store struct { *os.File; mu sync.Mutex; buf *bufio.Writer; size uint64 }\<close>.
  The embedded file is its name and whether it has been closed; the \<^verbatim>\<open>bufio.Writer\<close>
  is the bytes it holds and its sticky error.\<close>

record Store =
  File :: string
  closed :: bool
  buf :: "byte list"
  buf_err :: "error option"
  store_size :: uint64

text \<open>\<^verbatim>\<open>bufio.NewWriter\<close> gives a buffer of 4096 bytes.\<close>

definition defaultBufSize :: nat where "defaultBufSize = 4096"

definition File_Write :: "dir \<Rightarrow> Store \<Rightarrow> byte list \<Rightarrow> nat \<times> error option \<times> dir" where
  "File_Write d s p =
     (if closed s then (0, Some ErrClosed, d) else (length p, None, write_end d (File s) p))"

definition bufio_Flush :: "dir \<Rightarrow> Store \<Rightarrow> error option \<times> dir \<times> Store" where
  "bufio_Flush d s =
     (if buf_err s \<noteq> None then (buf_err s, d, s)
      else if buf s = [] then (None, d, s)
      else (case File_Write d s (buf s) of
              (n, None, d') \<Rightarrow> (None, d', s\<lparr>buf := []\<rparr>)
            | (n, Some e, d') \<Rightarrow> (Some e, d', s\<lparr>buf := drop n (buf s), buf_err := Some e\<rparr>)))"

text \<open>\<^verbatim>\<open>(*bufio.Writer).Write\<close>: while the bytes do not fit and no error is pending,
  either write them straight to the file (empty buffer) or fill the buffer and flush it;
  then keep the rest.\<close>

function bufio_Write :: "dir \<Rightarrow> Store \<Rightarrow> byte list \<Rightarrow> nat \<Rightarrow> nat \<times> error option \<times> dir \<times> Store" where
  "bufio_Write d s p nn =
     (if defaultBufSize - length (buf s) < length p \<and> buf_err s = None then
        (if buf s = [] then
           (case File_Write d s p of
              (n, err, d') \<Rightarrow> bufio_Write d' (s\<lparr>buf_err := err\<rparr>) (drop n p) (nn + n))
         else
           (case bufio_Flush d (s\<lparr>buf := buf s @ take (defaultBufSize - length (buf s)) p\<rparr>) of
              (_, d', s') \<Rightarrow>
                bufio_Write d' s' (drop (defaultBufSize - length (buf s)) p)
                  (nn + (defaultBufSize - length (buf s)))))
      else if buf_err s \<noteq> None then (nn, buf_err s, d, s)
      else (nn + length p, None, d, s\<lparr>buf := buf s @ p\<rparr>))"
  by pat_completeness auto
termination
  by (relation "measure (\<lambda>(d, s, p, nn).
        if buf_err s \<noteq> None then 0 else if buf s = [] then 1 + length p else 2 + length p)")
     (auto simp: File_Write_def bufio_Flush_def split: if_splits)

declare bufio_Write.simps [simp del]

definition newStore :: "dir \<Rightarrow> string \<Rightarrow> error + Store" where
  "newStore d name =
     (case os_Stat d name of
        Inl e \<Rightarrow> Inl e
      | Inr n \<Rightarrow> Inr \<lparr>File = name, closed = False, buf = [], buf_err = None,
                      store_size = of_nat n\<rparr>)"

definition Store_Append ::
  "dir \<Rightarrow> Store \<Rightarrow> byte list \<Rightarrow> (error + uint64 \<times> uint64) \<times> dir \<times> Store" where
  "Store_Append d s p =
     (let pos = store_size s in
      case bufio_Write d s (PutUint64 (of_nat (length p))) 0 of
        (_, Some e, d1, s1) \<Rightarrow> (Inl e, d1, s1)
      | (_, None, d1, s1) \<Rightarrow>
          (case bufio_Write d1 s1 p 0 of
             (_, Some e, d2, s2) \<Rightarrow> (Inl e, d2, s2)
           | (w, None, d2, s2) \<Rightarrow>
               (Inr (of_nat (w + lenWidth), pos), d2,
                s2\<lparr>store_size := store_size s2 + of_nat (w + lenWidth)\<rparr>)))"

text \<open>\<^verbatim>\<open>(*os.File).ReadAt\<close>: all \<open>n\<close> bytes at \<open>off\<close>, or an error; nothing is read
  for an empty slice.\<close>

definition File_ReadAt :: "dir \<Rightarrow> Store \<Rightarrow> nat \<Rightarrow> int \<Rightarrow> error + byte list" where
  "File_ReadAt d s n off =
     (if closed s then Inl ErrClosed
      else if off < 0 then Inl ErrNegativeOffset
      else if n = 0 then Inr []
      else if nat off + n \<le> length (content d (File s))
        then Inr (take n (drop (nat off) (content d (File s))))
      else Inl EOF)"

definition Store_Read :: "dir \<Rightarrow> Store \<Rightarrow> uint64 \<Rightarrow> (error + byte list) \<times> dir \<times> Store" where
  "Store_Read d s pos =
     (case bufio_Flush d s of
        (Some e, d1, s1) \<Rightarrow> (Inl e, d1, s1)
      | (None, d1, s1) \<Rightarrow>
          (case File_ReadAt d1 s1 lenWidth (sint pos) of
             Inl e \<Rightarrow> (Inl e, d1, s1)
           | Inr len \<Rightarrow>
               (case File_ReadAt d1 s1 (unat (Uint64 len)) (sint (pos + of_nat lenWidth)) of
                  Inl e \<Rightarrow> (Inl e, d1, s1)
                | Inr b \<Rightarrow> (Inr b, d1, s1))))"

definition Store_Close :: "dir \<Rightarrow> Store \<Rightarrow> error option \<times> dir \<times> Store" where
  "Store_Close d s =
     (case bufio_Flush d s of
        (Some e, d1, s1) \<Rightarrow> (Some e, d1, s1)
      | (None, d1, s1) \<Rightarrow>
          if closed s1 then (Some ErrClosed, d1, s1) else (None, d1, s1\<lparr>closed := True\<rparr>))"

subsection \<open>index.go\<close>

text \<open>\<^verbatim>\<open>type index struct { file *os.File; mmap gommap.MMap; size uint64 }\<close>. The
  mapping is \<^verbatim>\<open>MAP_SHARED\<close>: its bytes are the bytes of the file, so the model keeps
  them in the directory and keeps the length of the mapping, fixed when the file is
  mapped, in the record. Touching the mapping past the end of a file that has been cut
  is a fault (\<open>Panic\<close>); a mapping whose file has been unlinked stays writable.\<close>

record index =
  ifile :: string
  iclosed :: bool
  mmap_len :: nat
  index_size :: uint64

definition newIndex :: "dir \<Rightarrow> string \<Rightarrow> Config \<Rightarrow> (error + index) \<times> dir" where
  "newIndex d name c =
     (case os_Stat d name of
        Inl e \<Rightarrow> (Inl e, d)
      | Inr n \<Rightarrow>
          (case os_Truncate d name (sint (MaxIndexBytes c)) of
             Inl e \<Rightarrow> (Inl e, d)
           | Inr d' \<Rightarrow>
               if length (content d' name) = 0 then (Inl ErrInvalid, d')
               else (Inr \<lparr>ifile = name, iclosed = False, mmap_len = length (content d' name),
                          index_size = of_nat n\<rparr>, d')))"

text \<open>\<^verbatim>\<open>(*os.File).Truncate\<close>, through the handle.\<close>

definition File_Truncate :: "dir \<Rightarrow> string \<Rightarrow> int \<Rightarrow> error + dir" where
  "File_Truncate d name n =
     (if n < 0 then Inl ErrInvalid
      else Inr (case map_of d name of
                  None \<Rightarrow> d
                | Some c \<Rightarrow> AList.update name (resize (nat n) c) d))"

definition index_Close :: "dir \<Rightarrow> index \<Rightarrow> error option \<times> dir \<times> index" where
  "index_Close d i =
     (if iclosed i then (Some ErrClosed, d, i)
      else (case File_Truncate d (ifile i) (sint (index_size i)) of
              Inl e \<Rightarrow> (Some e, d, i)
            | Inr d' \<Rightarrow> (None, d', i\<lparr>iclosed := True\<rparr>)))"

text \<open>The parameter \<^verbatim>\<open>in int64\<close> is kept as its 64 bits: \<open>- 1\<close> is the word of all
  ones, and \<^verbatim>\<open>uint32(in)\<close> keeps the low 32 bits.\<close>

definition index_Read :: "dir \<Rightarrow> index \<Rightarrow> uint64 \<Rightarrow> error + uint32 \<times> uint64" where
  "index_Read d i n =
     (if index_size i = 0 then Inl EOF
      else
        let out = (if n = - 1 then ucast (index_size i div endWidth - 1) else ucast n) :: uint32;
            pos = ucast out * endWidth
        in if index_size i < pos + endWidth then Inl EOF
           else if mmap_len i < unat pos + unat endWidth
                   \<or> length (content d (ifile i)) < unat pos + unat endWidth then Inl Panic
           else Inr (Uint32 (take (unat offWidth) (drop (unat pos) (content d (ifile i)))),
                     Uint64 (take (unat posWidth)
                               (drop (unat pos + unat offWidth) (content d (ifile i))))))"

definition index_Write ::
  "dir \<Rightarrow> index \<Rightarrow> uint32 \<Rightarrow> uint64 \<Rightarrow> error option \<times> dir \<times> index" where
  "index_Write d i off pos =
     (if of_nat (mmap_len i) < index_size i + endWidth then (Some EOF, d, i)
      else if mmap_len i < unat (index_size i) + unat endWidth then (Some Panic, d, i)
      else
        (case map_of d (ifile i) of
           None \<Rightarrow> (None, d, i\<lparr>index_size := index_size i + endWidth\<rparr>)
         | Some c \<Rightarrow>
             if length c < unat (index_size i) + unat endWidth then (Some Panic, d, i)
             else (None,
                   write_at d (ifile i) (unat (index_size i)) (PutUint32 off @ PutUint64 pos),
                   i\<lparr>index_size := index_size i + endWidth\<rparr>)))"

definition index_Name :: "index \<Rightarrow> string" where
  "index_Name i = ifile i"

subsection \<open>File names\<close>

text \<open>\<^verbatim>\<open>fmt.Sprintf("%d", n)\<close>: the decimal digits of \<open>n\<close>.\<close>

definition digit :: "nat \<Rightarrow> char" where
  "digit n = ''0123456789'' ! n"

fun Sprintf_d :: "nat \<Rightarrow> string" where
  "Sprintf_d n =
     (if n < 10 then [digit n] else Sprintf_d (n div 10) @ [digit (n mod 10)])"

declare Sprintf_d.simps [simp del]

text \<open>\<^verbatim>\<open>path.Ext\<close>: the suffix from the last dot of the last element of the path.\<close>

fun Ext_from :: "string \<Rightarrow> nat \<Rightarrow> string" where
  "Ext_from p 0 = []"
| "Ext_from p (Suc i) =
     (if p ! i = CHR ''/'' then []
      else if p ! i = CHR ''.'' then drop i p
      else Ext_from p i)"

definition Ext :: "string \<Rightarrow> string" where
  "Ext p = Ext_from p (length p)"

definition TrimSuffix :: "string \<Rightarrow> string \<Rightarrow> string" where
  "TrimSuffix s suffix =
     (if length suffix \<le> length s \<and> drop (length s - length suffix) s = suffix
      then take (length s - length suffix) s else s)"

text \<open>\<^verbatim>\<open>strconv.ParseUint(s, 10, 0)\<close>: digits only; the value and the error. On a syntax
  error the value is 0, on overflow it is the largest \<^verbatim>\<open>uint64\<close>. The accumulator is
  a \<^verbatim>\<open>uint64\<close>, and overflow is detected as the library does.\<close>

definition maxVal :: uint64 where "maxVal = - 1"
definition cutoff :: uint64 where "cutoff = maxVal div 10 + 1"

definition is_digit :: "char \<Rightarrow> bool" where
  "is_digit c \<longleftrightarrow> c \<in> set ''0123456789''"

definition digit_val :: "char \<Rightarrow> uint64" where
  "digit_val c = of_nat (of_char c - 48)"

fun ParseUint_loop :: "string \<Rightarrow> uint64 \<Rightarrow> uint64 \<times> error option" where
  "ParseUint_loop [] n = (n, None)"
| "ParseUint_loop (c # cs) n =
     (if is_digit c then
        (if cutoff \<le> n then (maxVal, Some ErrRange)
         else if n * 10 + digit_val c < n * 10 then (maxVal, Some ErrRange)
         else ParseUint_loop cs (n * 10 + digit_val c))
      else (0, Some ErrSyntax))"

definition ParseUint :: "string \<Rightarrow> uint64 \<times> error option" where
  "ParseUint s = (if s = [] then (0, Some ErrSyntax) else ParseUint_loop s 0)"

subsection \<open>segment.go\<close>

record segment =
  store :: Store
  index :: index
  baseOffset :: uint64
  nextOffset :: uint64
  config :: Config

definition store_name :: "uint64 \<Rightarrow> string" where
  "store_name base = Sprintf_d (unat base) @ ''.store''"

definition index_name :: "uint64 \<Rightarrow> string" where
  "index_name base = Sprintf_d (unat base) @ ''.index''"

definition newSegment :: "dir \<Rightarrow> uint64 \<Rightarrow> Config \<Rightarrow> (error + segment) \<times> dir" where
  "newSegment d base c =
     (let d1 = os_OpenFile d (store_name base) in
      case newStore d1 (store_name base) of
        Inl e \<Rightarrow> (Inl e, d1)
      | Inr st \<Rightarrow>
          (let d2 = os_OpenFile d1 (index_name base) in
           case newIndex d2 (index_name base) c of
             (Inl e, d3) \<Rightarrow> (Inl e, d3)
           | (Inr ix, d3) \<Rightarrow>
               (case index_Read d3 ix (- 1) of
                  Inl Panic \<Rightarrow> (Inl Panic, d3)
                | Inl _ \<Rightarrow>
                    (Inr \<lparr>store = st, index = ix, baseOffset = base,
                          nextOffset = base, config = c\<rparr>, d3)
                | Inr (off, _) \<Rightarrow>
                    (Inr \<lparr>store = st, index = ix, baseOffset = base,
                          nextOffset = base + ucast off + 1, config = c\<rparr>, d3))))"

text \<open>\<^verbatim>\<open>Append\<close> writes into the caller's record through the pointer, so the record is
  returned as well.\<close>

definition segment_Append ::
  "codec \<Rightarrow> dir \<Rightarrow> segment \<Rightarrow> api_Record \<Rightarrow> (error + uint64) \<times> api_Record \<times> dir \<times> segment" where
  "segment_Append pb d s record =
     (let cur = nextOffset s;
          record = record\<lparr>Offset := cur\<rparr>
      in case Marshal pb record of
           Inl e \<Rightarrow> (Inl e, record, d, s)
         | Inr p \<Rightarrow>
             (case Store_Append d (store s) p of
                (Inl e, d1, st) \<Rightarrow> (Inl e, record, d1, s\<lparr>store := st\<rparr>)
              | (Inr (_, pos), d1, st) \<Rightarrow>
                  (case index_Write d1 (index s) (ucast (nextOffset s - baseOffset s)) pos of
                     (Some e, d2, ix) \<Rightarrow> (Inl e, record, d2, s\<lparr>store := st, index := ix\<rparr>)
                   | (None, d2, ix) \<Rightarrow>
                       (Inr cur, record, d2,
                        s\<lparr>store := st, index := ix, nextOffset := nextOffset s + 1\<rparr>))))"

definition segment_Read ::
  "codec \<Rightarrow> dir \<Rightarrow> segment \<Rightarrow> uint64 \<Rightarrow> (error + api_Record) \<times> dir \<times> segment" where
  "segment_Read pb d s offset =
     (case index_Read d (index s) (offset - baseOffset s) of
        Inl e \<Rightarrow> (Inl e, d, s)
      | Inr (_, pos) \<Rightarrow>
          (case Store_Read d (store s) pos of
             (Inl e, d1, st) \<Rightarrow> (Inl e, d1, s\<lparr>store := st\<rparr>)
           | (Inr p, d1, st) \<Rightarrow> (Unmarshal pb p, d1, s\<lparr>store := st\<rparr>)))"

definition IsMaxed :: "segment \<Rightarrow> bool" where
  "IsMaxed s \<longleftrightarrow>
     MaxStoreBytes (config s) \<le> store_size (store s) \<or>
     MaxIndexBytes (config s) \<le> index_size (index s)"

definition segment_Remove :: "dir \<Rightarrow> segment \<Rightarrow> error option \<times> dir \<times> segment" where
  "segment_Remove d s =
     (case Store_Close d (store s) of
        (Some e, d1, st) \<Rightarrow> (Some e, d1, s\<lparr>store := st\<rparr>)
      | (None, d1, st) \<Rightarrow>
          (case os_Remove d1 (index_Name (index s)) of
             Inl e \<Rightarrow> (Some e, d1, s\<lparr>store := st\<rparr>)
           | Inr d2 \<Rightarrow>
               (case os_Remove d2 (File st) of
                  Inl e \<Rightarrow> (Some e, d2, s\<lparr>store := st\<rparr>)
                | Inr d3 \<Rightarrow> (None, d3, s\<lparr>store := st\<rparr>))))"

definition segment_Close :: "dir \<Rightarrow> segment \<Rightarrow> error option \<times> dir \<times> segment" where
  "segment_Close d s =
     (case index_Close d (index s) of
        (Some e, d1, ix) \<Rightarrow> (Some e, d1, s\<lparr>index := ix\<rparr>)
      | (None, d1, ix) \<Rightarrow>
          (case Store_Close d1 (store s) of
             (Some e, d2, st) \<Rightarrow> (Some e, d2, s\<lparr>index := ix, store := st\<rparr>)
           | (None, d2, st) \<Rightarrow> (None, d2, s\<lparr>index := ix, store := st\<rparr>)))"

subsection \<open>log.go\<close>

text \<open>\<^verbatim>\<open>type Log struct { mu; Dir string; Config Config; activeSegment *segment;
  segments []*segment }\<close>. The segments are shared objects: \<open>heap\<close> holds every segment
  that has been allocated, and \<open>activeSegment\<close> and the elements of \<open>segments\<close> are
  pointers into it (positions of \<open>heap\<close>); the nil pointer is \<open>None\<close> and the nil slice
  is the empty list. The contents of \<^verbatim>\<open>Dir\<close> are the directory passed along.\<close>

record Log =
  Config :: Config
  heap :: "segment list"
  activeSegment :: "nat option"
  segments :: "nat list"

definition Log_newSegment :: "dir \<Rightarrow> Log \<Rightarrow> uint64 \<Rightarrow> error option \<times> dir \<times> Log" where
  "Log_newSegment d l off =
     (case newSegment d off (Config l) of
        (Inl e, d1) \<Rightarrow> (Some e, d1, l)
      | (Inr s, d1) \<Rightarrow>
          (None, d1,
           l\<lparr>heap := heap l @ [s],
             segments := segments l @ [length (heap l)],
             activeSegment := Some (length (heap l))\<rparr>))"

text \<open>The loop of \<^verbatim>\<open>setup\<close> increments \<^verbatim>\<open>i\<close> in its body and in its header: it opens
  a segment for every other element of the sorted list.\<close>

fun setup_loop :: "dir \<Rightarrow> Log \<Rightarrow> uint64 list \<Rightarrow> error option \<times> dir \<times> Log" where
  "setup_loop d l [] = (None, d, l)"
| "setup_loop d l [b] = Log_newSegment d l b"
| "setup_loop d l (b # b' # bs) =
     (case Log_newSegment d l b of
        (Some e, d1, l1) \<Rightarrow> (Some e, d1, l1)
      | (None, d1, l1) \<Rightarrow> setup_loop d1 l1 bs)"

text \<open>\<^verbatim>\<open>os.ReadDir\<close> lists the names in alphabetical order; the order is of no
  consequence, since the numbers are sorted before they are used.\<close>

definition Log_setup :: "dir \<Rightarrow> Log \<Rightarrow> error option \<times> dir \<times> Log" where
  "Log_setup d l =
     (let baseOffsets =
            sort (map (\<lambda>name. fst (ParseUint (TrimSuffix name (Ext name)))) (os_ReadDir d))
      in case setup_loop d l baseOffsets of
           (Some e, d1, l1) \<Rightarrow> (Some e, d1, l1)
         | (None, d1, l1) \<Rightarrow>
             if segments l1 = [] then Log_newSegment d1 l1 (InitialOffset (Config l1))
             else (None, d1, l1))"

definition NewLog :: "dir \<Rightarrow> Config \<Rightarrow> error option \<times> dir \<times> Log" where
  "NewLog d c =
     (let c1 = (if MaxStoreBytes c = 0 then c\<lparr>MaxStoreBytes := 1024\<rparr> else c);
          c2 = (if MaxIndexBytes c1 = 0 then c1\<lparr>MaxIndexBytes := 1024\<rparr> else c1)
      in Log_setup d \<lparr>Config = c2, heap = [], activeSegment = None, segments = []\<rparr>)"

definition Log_Append ::
  "codec \<Rightarrow> dir \<Rightarrow> Log \<Rightarrow> api_Record \<Rightarrow> (error + uint64) \<times> api_Record \<times> dir \<times> Log" where
  "Log_Append pb d l record =
     (case activeSegment l of
        None \<Rightarrow> (Inl Panic, record, d, l)
      | Some a \<Rightarrow>
          (case segment_Append pb d (heap l ! a) record of
             (Inl e, record, d1, s) \<Rightarrow> (Inl e, record, d1, l\<lparr>heap := (heap l)[a := s]\<rparr>)
           | (Inr off, record, d1, s) \<Rightarrow>
               if IsMaxed s then
                 (case Log_newSegment d1 (l\<lparr>heap := (heap l)[a := s]\<rparr>) (off + 1) of
                    (Some e, d2, l2) \<Rightarrow> (Inl e, record, d2, l2)
                  | (None, d2, l2) \<Rightarrow> (Inr off, record, d2, l2))
               else (Inr off, record, d1, l\<lparr>heap := (heap l)[a := s]\<rparr>)))"

definition Log_Read ::
  "codec \<Rightarrow> dir \<Rightarrow> Log \<Rightarrow> uint64 \<Rightarrow> (error + api_Record) \<times> dir \<times> Log" where
  "Log_Read pb d l off =
     (case find (\<lambda>a. baseOffset (heap l ! a) \<le> off \<and> off < nextOffset (heap l ! a))
             (segments l) of
        None \<Rightarrow> (Inl (ErrorOffsetOutOfRange off), d, l)
      | Some a \<Rightarrow>
          if nextOffset (heap l ! a) \<le> off then (Inl (ErrorOffsetOutOfRange off), d, l)
          else (case segment_Read pb d (heap l ! a) off of
                  (r, d1, s) \<Rightarrow> (r, d1, l\<lparr>heap := (heap l)[a := s]\<rparr>)))"

fun Close_loop :: "dir \<Rightarrow> segment list \<Rightarrow> nat list \<Rightarrow> error option \<times> dir \<times> segment list" where
  "Close_loop d h [] = (None, d, h)"
| "Close_loop d h (a # as) =
     (case segment_Close d (h ! a) of
        (Some e, d1, s) \<Rightarrow> (Some e, d1, h[a := s])
      | (None, d1, s) \<Rightarrow> Close_loop d1 (h[a := s]) as)"

definition Log_Close :: "dir \<Rightarrow> Log \<Rightarrow> error option \<times> dir \<times> Log" where
  "Log_Close d l =
     (case Close_loop d (heap l) (segments l) of (e, d1, h) \<Rightarrow> (e, d1, l\<lparr>heap := h\<rparr>))"

definition Log_Reset :: "dir \<Rightarrow> Log \<Rightarrow> error option \<times> dir \<times> Log" where
  "Log_Reset d l =
     (case Log_Close d l of
        (Some e, d1, l1) \<Rightarrow> (Some e, d1, l1)
      | (None, d1, l1) \<Rightarrow> Log_setup d1 l1)"

definition LowestOffset :: "Log \<Rightarrow> error + uint64" where
  "LowestOffset l =
     (case segments l of [] \<Rightarrow> Inl Panic | a # _ \<Rightarrow> Inr (baseOffset (heap l ! a)))"

definition HighestOffset :: "Log \<Rightarrow> error + uint64" where
  "HighestOffset l =
     (if segments l = [] then Inl Panic
      else let off = nextOffset (heap l ! last (segments l))
           in if off = 0 then Inr 0 else Inr (off - 1))"

fun Truncate_loop ::
  "dir \<Rightarrow> segment list \<Rightarrow> uint64 \<Rightarrow> nat list \<Rightarrow> nat list \<Rightarrow>
   error option \<times> dir \<times> segment list \<times> nat list" where
  "Truncate_loop d h lowest [] kept = (None, d, h, kept)"
| "Truncate_loop d h lowest (a # as) kept =
     (if nextOffset (h ! a) \<le> lowest + 1 then
        (case segment_Remove d (h ! a) of
           (Some e, d1, s) \<Rightarrow> (Some e, d1, h[a := s], kept)
         | (None, d1, s) \<Rightarrow> Truncate_loop d1 (h[a := s]) lowest as kept)
      else Truncate_loop d h lowest as (kept @ [a]))"

definition Log_Truncate :: "dir \<Rightarrow> Log \<Rightarrow> uint64 \<Rightarrow> error option \<times> dir \<times> Log" where
  "Log_Truncate d l lowest =
     (case Truncate_loop d (heap l) lowest (segments l) [] of
        (Some e, d1, h, _) \<Rightarrow> (Some e, d1, l\<lparr>heap := h\<rparr>)
      | (None, d1, h, kept) \<Rightarrow> (None, d1, l\<lparr>heap := h, segments := kept\<rparr>))"

subsection \<open>membership.go\<close>

text \<open>A \<^verbatim>\<open>serf.Member\<close> is its name and its tags; looking up a key that a Go map does
  not hold gives the empty string. The handler is an interface: what reaches it is
  recorded as the list of calls made, in order. An error returned by the handler is
  only logged, so it does not change the calls that follow.\<close>

record Member =
  Name :: string
  Tags :: "(string \<times> string) list"

datatype Event =
    EventMemberJoin "Member list"
  | EventMemberLeave "Member list"
  | EventMemberFailed "Member list"
  | EventOther

datatype call = Join string string | Leave string

definition tag :: "Member \<Rightarrow> string \<Rightarrow> string" where
  "tag member key = (case map_of (Tags member) key of None \<Rightarrow> [] | Some v \<Rightarrow> v)"

definition isLocal :: "string \<Rightarrow> Member \<Rightarrow> bool" where
  "isLocal localName member \<longleftrightarrow> localName = Name member"

definition handleJoin :: "call list \<Rightarrow> Member \<Rightarrow> call list" where
  "handleJoin calls member = calls @ [Join (Name member) (tag member ''rcp_addr'')]"

definition handleLeave :: "call list \<Rightarrow> Member \<Rightarrow> call list" where
  "handleLeave calls member = calls @ [Leave (Name member)]"

fun join_loop :: "string \<Rightarrow> call list \<Rightarrow> Member list \<Rightarrow> call list" where
  "join_loop localName calls [] = calls"
| "join_loop localName calls (member # members) =
     (if isLocal localName member then join_loop localName calls members
      else join_loop localName (handleJoin calls member) members)"

text \<open>The second component tells whether the loop has executed \<^verbatim>\<open>return\<close>.\<close>

fun leave_loop :: "string \<Rightarrow> call list \<Rightarrow> Member list \<Rightarrow> call list \<times> bool" where
  "leave_loop localName calls [] = (calls, False)"
| "leave_loop localName calls (member # members) =
     (if isLocal localName member then (calls, True)
      else leave_loop localName (handleLeave calls member) members)"

fun eventHandler :: "string \<Rightarrow> call list \<Rightarrow> Event list \<Rightarrow> call list" where
  "eventHandler localName calls [] = calls"
| "eventHandler localName calls (EventMemberJoin members # events) =
     eventHandler localName (join_loop localName calls members) events"
| "eventHandler localName calls (EventMemberLeave members # events) =
     (case leave_loop localName calls members of
        (calls', True) \<Rightarrow> calls'
      | (calls', False) \<Rightarrow> eventHandler localName calls' events)"
| "eventHandler localName calls (EventMemberFailed members # events) =
     (case leave_loop localName calls members of
        (calls', True) \<Rightarrow> calls'
      | (calls', False) \<Rightarrow> eventHandler localName calls' events)"
| "eventHandler localName calls (EventOther # events) = eventHandler localName calls events"

subsection \<open>Values used in the examples\<close>

text \<open>A codec that writes the offset in eight bytes before the value. It stands in for
  protobuf where an example needs to run.\<close>

definition plain_codec :: codec where
  "plain_codec =
     \<lparr>Marshal = (\<lambda>r. Inr (PutUint64 (Offset r) @ Value r)),
      Unmarshal = (\<lambda>b. if length b < 8 then Inl ErrCodec
                        else Inr \<lparr>Value = drop 8 b, Offset = Uint64 (take 8 b)\<rparr>)\<rparr>"

definition hello :: api_Record where
  "hello = \<lparr>Value = [104, 101, 108, 108, 111], Offset = 77\<rparr>"

text \<open>A codec that refuses a value of more than four bytes.\<close>

definition short_codec :: codec where
  "short_codec =
     \<lparr>Marshal = (\<lambda>r. if length (Value r) \<le> 4 then Marshal plain_codec r else Inl ErrCodec),
      Unmarshal = Unmarshal plain_codec\<rparr>"

text \<open>A record that does not fit in the buffer of the store.\<close>

definition big :: api_Record where
  "big = \<lparr>Value = replicate 4081 0, Offset = 0\<rparr>"

text \<open>A segment with room for one index entry, as \<open>newSegment\<close> makes it at base offset
  16 in an empty directory; the same segment after one record, after a second attempt,
  and after \<open>segment_Close\<close>.\<close>

definition one_entry :: Config where
  "one_entry = \<lparr>MaxStoreBytes = 1024, MaxIndexBytes = 12, InitialOffset = 0\<rparr>"

definition dir16 :: dir where
  "dir16 = [(''16.store'', []), (''16.index'', replicate 12 0)]"

definition seg16 :: segment where
  "seg16 =
     \<lparr>store = \<lparr>File = ''16.store'', closed = False, buf = [], buf_err = None, store_size = 0\<rparr>,
      index = \<lparr>ifile = ''16.index'', iclosed = False, mmap_len = 12, index_size = 0\<rparr>,
      baseOffset = 16, nextOffset = 16, config = one_entry\<rparr>"

definition seg16_one :: segment where
  "seg16_one =
     seg16\<lparr>store := (store seg16)\<lparr>buf := PutUint64 13 @ PutUint64 16 @ Value hello,
                                   store_size := 21\<rparr>,
           index := (index seg16)\<lparr>index_size := 12\<rparr>,
           nextOffset := 17\<rparr>"

definition seg16_two :: segment where
  "seg16_two =
     seg16_one\<lparr>store := (store seg16_one)
                 \<lparr>buf := buf (store seg16_one) @ PutUint64 13 @ PutUint64 17 @ Value hello,
                  store_size := 42\<rparr>\<rparr>"

definition dir16_closed :: dir where
  "dir16_closed = [(''16.store'', []), (''16.index'', [])]"

definition seg16_closed :: segment where
  "seg16_closed =
     seg16\<lparr>store := (store seg16)\<lparr>closed := True\<rparr>, index := (index seg16)\<lparr>iclosed := True\<rparr>\<rparr>"

definition store16_failed :: Store where
  "store16_failed =
     (store seg16_closed)\<lparr>buf := PutUint64 4089 @ PutUint64 16 @ replicate 4080 0,
                          buf_err := Some ErrClosed\<rparr>"

subsection \<open>Notions used in the statements\<close>

text \<open>What a reader of the store sees: the bytes of the file followed by the bytes the
  writer still holds.\<close>

definition logical :: "dir \<Rightarrow> Store \<Rightarrow> byte list" where
  "logical d st = content d (File st) @ buf st"

definition open_store :: "dir \<Rightarrow> Store \<Rightarrow> bool" where
  "open_store d st \<longleftrightarrow> \<not> closed st \<and> buf_err st = None \<and> map_of d (File st) \<noteq> None"

text \<open>One entry of the store: the length in eight bytes, then the payload.\<close>

definition frame :: "byte list \<Rightarrow> byte list" where
  "frame p = PutUint64 (of_nat (length p)) @ p"

text \<open>A step that adds \<open>p\<close> to what the store holds and touches no other file.\<close>

definition store_ext :: "dir \<Rightarrow> Store \<Rightarrow> dir \<Rightarrow> Store \<Rightarrow> byte list \<Rightarrow> bool" where
  "store_ext d st d' st' p \<longleftrightarrow>
     map fst d' = map fst d \<and>
     (\<forall>name. name \<noteq> File st \<longrightarrow> map_of d' name = map_of d name) \<and>
     logical d' st' = logical d st @ p \<and>
     open_store d' st' \<and> File st' = File st"

text \<open>One entry of the index: the relative offset in four bytes, the position in the
  store in eight.\<close>

definition entry :: "nat \<Rightarrow> nat \<Rightarrow> byte list" where
  "entry i pos = PutUint32 (of_nat i) @ PutUint64 (of_nat pos)"

text \<open>The number of records of a segment.\<close>

definition count :: "segment \<Rightarrow> nat" where
  "count s = unat (nextOffset s) - unat (baseOffset s)"

text \<open>A segment in use: its files are named after its base offset, they are open, and
  its offsets have not wrapped around.\<close>

definition seg_wf :: "segment \<Rightarrow> bool" where
  "seg_wf s \<longleftrightarrow>
     File (store s) = store_name (baseOffset s) \<and>
     ifile (index s) = index_name (baseOffset s) \<and>
     \<not> closed (store s) \<and> buf_err (store s) = None \<and> \<not> iclosed (index s) \<and>
     unat (baseOffset s) \<le> unat (nextOffset s)"

text \<open>What the files of a segment hold, given the payloads \<open>w\<close> that have been appended
  (by offset): the size fields agree with the files, the index file has the length of
  the mapping, and record number \<open>i\<close> has an index entry that points at a frame of the
  store holding the marshalled record.\<close>

definition seg_data :: "codec \<Rightarrow> (uint64 \<rightharpoonup> byte list) \<Rightarrow> dir \<Rightarrow> segment \<Rightarrow> bool" where
  "seg_data pb w d s \<longleftrightarrow>
     (\<exists>sc ic.
        map_of d (store_name (baseOffset s)) = Some sc \<and>
        map_of d (index_name (baseOffset s)) = Some ic \<and>
        unat (store_size (store s)) = length (sc @ buf (store s)) \<and>
        length (sc @ buf (store s)) < 2 ^ 63 \<and>
        mmap_len (index s) = length ic \<and>
        length ic = unat (MaxIndexBytes (config s)) \<and>
        unat (index_size (index s)) = 12 * count s \<and>
        12 * count s \<le> length ic \<and>
        (\<forall>i<count s. \<exists>pos v p.
           w (baseOffset s + of_nat i) = Some v \<and>
           Marshal pb \<lparr>Value = v, Offset = baseOffset s + of_nat i\<rparr> = Inr p \<and>
           take 12 (drop (12 * i) ic) = entry i pos \<and>
           pos + 8 + length p \<le> length (sc @ buf (store s)) \<and>
           take (8 + length p) (drop pos (sc @ buf (store s))) = frame p))"

text \<open>The segments of a log, in the order of its list.\<close>

definition segs :: "Log \<Rightarrow> segment list" where
  "segs l = map (\<lambda>a. heap l ! a) (segments l)"

definition cfg_ok :: "Config \<Rightarrow> bool" where
  "cfg_ok c \<longleftrightarrow>
     MaxStoreBytes c \<noteq> 0 \<and> MaxIndexBytes c \<noteq> 0 \<and> unat (MaxIndexBytes c) \<le> 12 * 2 ^ 32"

text \<open>Adjacent segments meet, and every segment but the last holds a record.\<close>

fun chained :: "segment list \<Rightarrow> bool" where
  "chained [] \<longleftrightarrow> True"
| "chained [s] \<longleftrightarrow> True"
| "chained (s # t # ss) \<longleftrightarrow>
     nextOffset s = baseOffset t \<and> unat (baseOffset s) < unat (nextOffset s) \<and> chained (t # ss)"

definition log_struct :: "dir \<Rightarrow> Log \<Rightarrow> bool" where
  "log_struct d l \<longleftrightarrow>
     segments l \<noteq> [] \<and> activeSegment l = Some (last (segments l)) \<and>
     distinct (segments l) \<and> (\<forall>a\<in>set (segments l). a < length (heap l)) \<and>
     cfg_ok (Config l) \<and>
     (\<forall>s\<in>set (segs l). seg_wf s \<and> config s = Config l) \<and>
     chained (segs l) \<and>
     distinct (map fst d) \<and>
     set (map fst d) = (\<Union>b\<in>set (map baseOffset (segs l)). {store_name b, index_name b})"

definition log_inv :: "codec \<Rightarrow> (uint64 \<rightharpoonup> byte list) \<Rightarrow> dir \<Rightarrow> Log \<Rightarrow> bool" where
  "log_inv pb w d l \<longleftrightarrow>
     log_struct d l \<and> (\<forall>s\<in>set (segs l). seg_data pb w d s) \<and>
     dom w \<subseteq> {off. \<exists>s\<in>set (segs l). baseOffset s \<le> off \<and> off < nextOffset s}"

text \<open>The library's contract: what \<open>Marshal\<close> produces, \<open>Unmarshal\<close> reads back.\<close>

definition codec_ok :: "codec \<Rightarrow> bool" where
  "codec_ok pb \<longleftrightarrow> (\<forall>r p. Marshal pb r = Inr p \<longrightarrow> Unmarshal pb p = Inr r)"

text \<open>The fields of a segment that never change while it is in use.\<close>

definition same_seg :: "segment \<Rightarrow> segment \<Rightarrow> bool" where
  "same_seg s s' \<longleftrightarrow>
     baseOffset s' = baseOffset s \<and> config s' = config s \<and>
     File (store s') = File (store s) \<and> ifile (index s') = ifile (index s) \<and>
     closed (store s') = closed (store s) \<and> buf_err (store s') = buf_err (store s) \<and>
     iclosed (index s') = iclosed (index s) \<and> mmap_len (index s') = mmap_len (index s)"

definition same_others :: "segment \<Rightarrow> dir \<Rightarrow> dir \<Rightarrow> bool" where
  "same_others s d d' \<longleftrightarrow>
     map fst d' = map fst d \<and>
     (\<forall>name. name \<noteq> store_name (baseOffset s) \<and> name \<noteq> index_name (baseOffset s)
        \<longrightarrow> map_of d' name = map_of d name)"

text \<open>The segment that \<open>newSegment\<close> makes when neither file exists yet.\<close>

definition fresh_segment :: "uint64 \<Rightarrow> Config \<Rightarrow> segment" where
  "fresh_segment b c =
     \<lparr>store = \<lparr>File = store_name b, closed = False, buf = [], buf_err = None, store_size = 0\<rparr>,
      index = \<lparr>ifile = index_name b, iclosed = False, mmap_len = unat (MaxIndexBytes c),
               index_size = 0\<rparr>,
      baseOffset = b, nextOffset = b, config = c\<rparr>"

text \<open>The configuration \<open>NewLog\<close> works with: a zero \<^verbatim>\<open>MaxStoreBytes\<close> or
  \<^verbatim>\<open>MaxIndexBytes\<close> is replaced by 1024.\<close>

definition with_defaults :: "Config \<Rightarrow> Config" where
  "with_defaults c =
     (let c1 = (if MaxStoreBytes c = 0 then c\<lparr>MaxStoreBytes := 1024\<rparr> else c)
      in if MaxIndexBytes c1 = 0 then c1\<lparr>MaxIndexBytes := 1024\<rparr> else c1)"

text \<open>The log with one segment and no record, and the directory that holds its two
  files.\<close>

definition empty_log :: "Config \<Rightarrow> Log" where
  "empty_log c =
     \<lparr>Config = c, heap = [fresh_segment (InitialOffset c) c], activeSegment = Some 0,
      segments = [0]\<rparr>"

definition empty_dir :: "Config \<Rightarrow> dir" where
  "empty_dir c =
     [(store_name (InitialOffset c), []),
      (index_name (InitialOffset c), replicate (unat (MaxIndexBytes c)) 0)]"




definition offsets :: "(error + uint64) list \<Rightarrow> uint64 list" where
  "offsets ress = concat (map (\<lambda>res. case res of Inl _ \<Rightarrow> [] | Inr off \<Rightarrow> [off]) ress)"

subsection \<open>Logs used in the examples\<close>









section \<open>Properties\<close>

subsection \<open>Membership\<close>

text \<open>C9. A join event for a member other than the local node should reach the handler
  as \<open>Join\<close> with the member's name and the value of its tag \<^verbatim>\<open>rpc_addr\<close>. The code
  looks up the tag \<^verbatim>\<open>rcp_addr\<close>: for the member \<open>1\<close> with
  \<^verbatim>\<open>rpc_addr = 127.0.0.1:8401\<close>, seen from node \<open>0\<close>, the handler is called with the
  empty address.\<close>

theorem handleJoin_passes_empty_address:
  "eventHandler ''0'' []
     [EventMemberJoin [\<lparr>Name = ''0'', Tags = [(''rpc_addr'', ''127.0.0.1:8400'')]\<rparr>,
                       \<lparr>Name = ''1'', Tags = [(''rpc_addr'', ''127.0.0.1:8401'')]\<rparr>]]
   = [Join ''1'' []]"
  by (simp add: isLocal_def handleJoin_def tag_def)

subsection \<open>Fixed-width encoding\<close>

lemma length_PutUint32 [simp]: "length (PutUint32 v) = 4"
  by (simp add: PutUint32_def)

lemma length_PutUint64 [simp]: "length (PutUint64 v) = 8"
  by (simp add: PutUint64_def)

lemma Uint32_PutUint32 [simp]: "Uint32 (PutUint32 v) = v"
proof (rule bit_eqI)
  fix n :: nat
  assume "possible_bit TYPE(32 word) n"
  then have "n < 32" by simp
  then consider "n < 8" | "8 \<le> n" "n < 16" | "16 \<le> n" "n < 24" | "24 \<le> n" "n < 32"
    by linarith
  then show "bit (Uint32 (PutUint32 v)) n = bit v n"
    by cases (simp_all add: PutUint32_def Uint32_def bit_simps less_diff_conv2)
qed

lemma Uint64_PutUint64 [simp]: "Uint64 (PutUint64 v) = v"
proof (rule bit_eqI)
  fix n :: nat
  assume "possible_bit TYPE(64 word) n"
  then have "n < 64" by simp
  then consider "n < 8" | "8 \<le> n" "n < 16" | "16 \<le> n" "n < 24" | "24 \<le> n" "n < 32"
    | "32 \<le> n" "n < 40" | "40 \<le> n" "n < 48" | "48 \<le> n" "n < 56" | "56 \<le> n" "n < 64"
    by linarith
  then show "bit (Uint64 (PutUint64 v)) n = bit v n"
    by cases (simp_all add: PutUint64_def Uint64_def bit_simps less_diff_conv2)
qed

lemma widths [simp]: "endWidth = 12" "offWidth = 4" "posWidth = 8" "lenWidth = 8"
  by (simp_all add: endWidth_def offWidth_def posWidth_def lenWidth_def)

subsection \<open>The directory\<close>

lemma content_Some [simp]: "map_of d name = Some c \<Longrightarrow> content d name = c"
  by (simp add: content_def)

lemma names_update_present:
  "map_of d name = Some c \<Longrightarrow> map fst (AList.update name c' d) = map fst d"
  by (auto simp: update_keys dest: map_of_SomeD intro: rev_image_eqI)

lemma map_of_write_end_same:
  "map_of d name = Some c \<Longrightarrow> map_of (write_end d name p) = (map_of d)(name \<mapsto> c @ p)"
  by (simp add: write_end_def update_conv')

lemma names_write_end [simp]: "map fst (write_end d name p) = map fst d"
  by (simp add: write_end_def names_update_present split: option.splits)

lemma map_of_write_at_same:
  "map_of d name = Some c \<Longrightarrow>
   map_of (write_at d name pos p) = (map_of d)(name \<mapsto> take pos c @ p @ drop (pos + length p) c)"
  by (simp add: write_at_def update_conv')

lemma names_write_at [simp]: "map fst (write_at d name pos p) = map fst d"
  by (simp add: write_at_def names_update_present split: option.splits)

lemma os_OpenFile_present: "map_of d name = Some c \<Longrightarrow> os_OpenFile d name = d"
  by (simp add: os_OpenFile_def)

lemma os_OpenFile_absent:
  "map_of d name = None \<Longrightarrow> os_OpenFile d name = d @ [(name, [])]"
  by (simp add: os_OpenFile_def)

lemma map_of_os_OpenFile:
  "map_of (os_OpenFile d name) =
     (case map_of d name of None \<Rightarrow> (map_of d)(name \<mapsto> []) | Some c \<Rightarrow> map_of d)"
  by (auto simp: os_OpenFile_def map_add_def fun_eq_iff split: option.splits)

lemma os_Truncate_Some:
  "map_of d name = Some c \<Longrightarrow> 0 \<le> n \<Longrightarrow>
   os_Truncate d name n = Inr (AList.update name (resize (nat n) c) d)"
  by (simp add: os_Truncate_def)

lemma File_Truncate_Some:
  "map_of d name = Some c \<Longrightarrow> 0 \<le> n \<Longrightarrow>
   File_Truncate d name n = Inr (AList.update name (resize (nat n) c) d)"
  by (simp add: File_Truncate_def)

lemma length_resize [simp]: "length (resize n c) = n"
  by (simp add: resize_def)

lemma resize_prefix: "k \<le> length c \<Longrightarrow> k \<le> n \<Longrightarrow> take k (resize n c) = take k c"
  by (simp add: resize_def)

lemma os_Remove_Some:
  "map_of d name = Some c \<Longrightarrow> os_Remove d name = Inr (AList.delete name d)"
  by (simp add: os_Remove_def)

subsection \<open>Words\<close>

lemma unat_of_nat64: "n < 2 ^ 64 \<Longrightarrow> unat (of_nat n :: uint64) = n"
  by (simp add: unat_of_nat)

lemma sint_small:
  fixes w :: uint64
  assumes "unat w < 2 ^ 63"
  shows "sint w = int (unat w)"
proof -
  have "int (unat w) < 2 ^ 63"
    using assms by (metis of_nat_less_iff of_nat_numeral of_nat_power)
  then have "uint w < 2 ^ 63"
    by (simp only: uint_nat)
  moreover have "- (2 ^ 63) \<le> uint w"
    by (rule order_trans [of _ 0]) simp_all
  ultimately have "signed_take_bit 63 (uint w) = uint w"
    by (rule signed_take_bit_int_eq_self [rotated])
  then show ?thesis
    by (simp only: sint_uint uint_nat) simp
qed

subsection \<open>The store\<close>

lemma bufio_Flush_open:
  assumes "open_store d st"
  shows "bufio_Flush d st = (None, write_end d (File st) (buf st), st\<lparr>buf := []\<rparr>)"
proof -
  obtain c where c: "map_of d (File st) = Some c"
    using assms by (auto simp: open_store_def)
  show ?thesis
  proof (cases "buf st = []")
    case True
    then have "write_end d (File st) (buf st) = d"
      using c by (simp add: write_end_def update_triv)
    with True assms show ?thesis
      by (simp add: bufio_Flush_def open_store_def)
  next
    case False
    with assms show ?thesis
      by (simp add: bufio_Flush_def open_store_def File_Write_def)
  qed
qed

lemma store_ext_refl: "open_store d st \<Longrightarrow> store_ext d st d st []"
  by (simp add: store_ext_def)

lemma store_ext_trans:
  "store_ext d st d1 st1 p \<Longrightarrow> store_ext d1 st1 d2 st2 q \<Longrightarrow> store_ext d st d2 st2 (p @ q)"
  by (simp add: store_ext_def)

lemma store_ext_write_end:
  assumes "open_store d st"
  shows "store_ext d st (write_end d (File st) (buf st @ p)) (st\<lparr>buf := []\<rparr>) p"
  using assms
  by (auto simp: store_ext_def open_store_def logical_def map_of_write_end_same content_def)

lemma store_ext_flush:
  assumes "open_store d st"
  shows "store_ext d st (write_end d (File st) (buf st)) (st\<lparr>buf := []\<rparr>) []"
  using store_ext_write_end [OF assms, of "[]"] by simp

lemma store_ext_buf:
  assumes "open_store d st"
  shows "store_ext d st d (st\<lparr>buf := buf st @ p\<rparr>) p"
  using assms by (simp add: store_ext_def open_store_def logical_def)

lemma bufio_Write_open:
  assumes "open_store d st"
  shows "\<exists>d' st'. bufio_Write d st p nn = (nn + length p, None, d', st')
           \<and> store_ext d st d' st' p \<and> store_size st' = store_size st"
  using assms
proof (induction d st p nn rule: bufio_Write.induct)
  case (1 d s p nn)
  let ?avail = "defaultBufSize - length (buf s)"
  from "1.prems" have op: "\<not> closed s" "buf_err s = None"
    by (simp_all add: open_store_def)
  show ?case
  proof (cases "?avail < length p")
    case False
    with op "1.prems" show ?thesis
      by (subst bufio_Write.simps) (simp add: store_ext_buf)
  next
    case big: True
    then have cond: "?avail < length p \<and> buf_err s = None"
      using op by simp
    show ?thesis
    proof (cases "buf s = []")
      case True
      let ?d1 = "write_end d (File s) p"
      have fw: "File_Write d s p = (length p, None, ?d1)"
        using op by (simp add: File_Write_def)
      have s_eq: "s\<lparr>buf_err := None\<rparr> = s" "s\<lparr>buf := []\<rparr> = s"
        using op True by simp_all
      have ext1: "store_ext d s ?d1 s p"
        using store_ext_write_end [OF "1.prems", of p] True s_eq by simp
      then have op1: "open_store ?d1 s"
        by (simp add: store_ext_def)
      have "\<exists>d' st'. bufio_Write ?d1 s (drop (length p) p) (nn + length p)
              = (nn + length p + length (drop (length p) p), None, d', st')
            \<and> store_ext ?d1 s d' st' (drop (length p) p) \<and> store_size st' = store_size s"
        using "1.IH"(1) [OF cond True, of "length p" "(None, ?d1)" None ?d1] fw op1
        by (simp add: s_eq)
      then obtain d' st' where
        w: "bufio_Write ?d1 s (drop (length p) p) (nn + length p)
              = (nn + length p + length (drop (length p) p), None, d', st')"
        and ext2: "store_ext ?d1 s d' st' (drop (length p) p)"
        and sz: "store_size st' = store_size s"
        by blast
      have "bufio_Write d s p nn = bufio_Write ?d1 s (drop (length p) p) (nn + length p)"
        using cond True fw by (subst bufio_Write.simps) (simp add: s_eq)
      with w ext2 sz store_ext_trans [OF ext1 ext2] show ?thesis
        by simp
    next
      case False
      let ?s1 = "s\<lparr>buf := buf s @ take ?avail p\<rparr>"
      let ?d1 = "write_end d (File s) (buf s @ take ?avail p)"
      let ?s2 = "s\<lparr>buf := []\<rparr>"
      have ext0: "store_ext d s d ?s1 (take ?avail p)"
        by (rule store_ext_buf [OF "1.prems"])
      then have op1: "open_store d ?s1"
        by (simp add: store_ext_def)
      have fl: "bufio_Flush d ?s1 = (None, ?d1, ?s2)"
        using bufio_Flush_open [OF op1] by simp
      have ext1: "store_ext d ?s1 ?d1 ?s2 []"
        using store_ext_flush [OF op1] by simp
      then have op2: "open_store ?d1 ?s2"
        by (simp add: store_ext_def)
      have "\<exists>d' st'. bufio_Write ?d1 ?s2 (drop ?avail p) (nn + ?avail)
              = (nn + ?avail + length (drop ?avail p), None, d', st')
            \<and> store_ext ?d1 ?s2 d' st' (drop ?avail p) \<and> store_size st' = store_size ?s2"
        using "1.IH"(2) [OF cond False, of None "(?d1, ?s2)" ?d1 ?s2] fl op2
        by simp
      then obtain d' st' where
        w: "bufio_Write ?d1 ?s2 (drop ?avail p) (nn + ?avail)
              = (nn + ?avail + length (drop ?avail p), None, d', st')"
        and ext2: "store_ext ?d1 ?s2 d' st' (drop ?avail p)"
        and sz: "store_size st' = store_size ?s2"
        by blast
      have "bufio_Write d s p nn = bufio_Write ?d1 ?s2 (drop ?avail p) (nn + ?avail)"
        using cond False fl by (subst bufio_Write.simps) simp
      moreover have "store_ext d s d' st' (take ?avail p @ [] @ drop ?avail p)"
        by (rule store_ext_trans [OF ext0 store_ext_trans [OF ext1 ext2]])
      moreover have "nn + ?avail + length (drop ?avail p) = nn + length p"
        using big by simp
      ultimately show ?thesis
        using w sz by simp
    qed
  qed
qed

lemma store_ext_size: "store_ext d st d' st' p \<Longrightarrow> store_ext d st d' (st'\<lparr>store_size := x\<rparr>) p"
  by (auto simp: store_ext_def open_store_def logical_def)

lemma Store_Append_open:
  assumes "open_store d st"
  shows "\<exists>d' st'. Store_Append d st p = (Inr (of_nat (length p + 8), store_size st), d', st')
           \<and> store_ext d st d' st' (frame p)
           \<and> store_size st' = store_size st + of_nat (length p + 8)"
proof -
  obtain d1 st1 where
    w1: "bufio_Write d st (PutUint64 (of_nat (length p))) 0 = (8, None, d1, st1)"
    and e1: "store_ext d st d1 st1 (PutUint64 (of_nat (length p)))"
    and s1: "store_size st1 = store_size st"
    using bufio_Write_open [OF assms, of "PutUint64 (of_nat (length p))" 0] by auto
  from e1 have op1: "open_store d1 st1"
    by (simp add: store_ext_def)
  obtain d2 st2 where
    w2: "bufio_Write d1 st1 p 0 = (length p, None, d2, st2)"
    and e2: "store_ext d1 st1 d2 st2 p"
    and s2: "store_size st2 = store_size st1"
    using bufio_Write_open [OF op1, of p 0] by auto
  have "store_ext d st d2 st2 (frame p)"
    using store_ext_trans [OF e1 e2] by (simp add: frame_def)
  then have "store_ext d st d2 (st2\<lparr>store_size := store_size st2 + of_nat (length p + 8)\<rparr>) (frame p)"
    by (rule store_ext_size)
  moreover have "Store_Append d st p =
      (Inr (of_nat (length p + 8), store_size st), d2,
       st2\<lparr>store_size := store_size st2 + of_nat (length p + 8)\<rparr>)"
    using w1 w2 by (simp add: Store_Append_def Let_def)
  ultimately show ?thesis
    using s1 s2 by simp
qed

lemma logical_flush:
  assumes "open_store d st"
  shows "map_of (write_end d (File st) (buf st)) (File st) = Some (logical d st)"
  using assms by (auto simp: open_store_def logical_def map_of_write_end_same)

lemma Store_Read_open:
  assumes op: "open_store d st"
    and fits: "pos + 8 + length p \<le> length (logical d st)"
    and fr: "take (8 + length p) (drop pos (logical d st)) = frame p"
    and small: "length (logical d st) < 2 ^ 63"
    and pos: "unat posw = pos"
  shows "Store_Read d st posw = (Inr p, write_end d (File st) (buf st), st\<lparr>buf := []\<rparr>)"
proof -
  let ?d1 = "write_end d (File st) (buf st)"
  let ?s1 = "st\<lparr>buf := []\<rparr>"
  let ?c = "logical d st"
  have fl: "bufio_Flush d st = (None, ?d1, ?s1)"
    by (rule bufio_Flush_open [OF op])
  have c: "content ?d1 (File ?s1) = ?c"
    using logical_flush [OF op] by simp
  have ncl: "\<not> closed ?s1"
    using op by (simp add: open_store_def)
  have p63: "pos < 2 ^ 63" "pos + 8 < 2 ^ 63" "length p < 2 ^ 63"
    using fits small by simp_all
  have sp: "sint posw = int pos"
    using sint_small [of posw] pos p63 by simp
  have "unat (posw + 8) = pos + 8"
    using pos p63 by (simp add: unat_word_ariths)
  then have sp8: "sint (posw + 8) = int (pos + 8)"
    using sint_small [of "posw + 8"] p63 by simp
  have "take 8 (take (8 + length p) (drop pos ?c)) = PutUint64 (of_nat (length p))"
    by (simp add: fr frame_def)
  then have hd: "take 8 (drop pos ?c) = PutUint64 (of_nat (length p))"
    by (simp add: min_def)
  have r1: "File_ReadAt ?d1 ?s1 8 (int pos) = Inr (PutUint64 (of_nat (length p)))"
    using ncl fits hd c by (simp add: File_ReadAt_def)
  have len: "unat (of_nat (length p) :: uint64) = length p"
    using p63 by (simp add: unat_of_nat)
  have "drop 8 (take (8 + length p) (drop pos ?c)) = p"
    by (simp add: fr frame_def)
  then have bd: "take (length p) (drop (pos + 8) ?c) = p"
    by (simp add: drop_take add.commute)
  have r2: "File_ReadAt ?d1 ?s1 (length p) (int (pos + 8)) = Inr p"
  proof (cases "length p = 0")
    case True
    with ncl show ?thesis by (simp add: File_ReadAt_def)
  next
    case False
    with ncl fits bd c show ?thesis
      by (simp add: File_ReadAt_def nat_add_distrib)
  qed
  show ?thesis
    using fl r1 r2 sp sp8 len by (simp add: Store_Read_def)
qed

lemma Store_Close_open:
  assumes "open_store d st"
  shows "Store_Close d st =
           (None, write_end d (File st) (buf st), st\<lparr>buf := [], closed := True\<rparr>)"
  using assms bufio_Flush_open [OF assms]
  by (simp add: Store_Close_def open_store_def)

subsection \<open>The index\<close>

lemma lt32_lt64: "k < 2 ^ 32 \<Longrightarrow> k < (2::nat) ^ 64"
  by (erule less_trans) simp

lemma ucast_32_of_nat: "k < 2 ^ 64 \<Longrightarrow> (ucast (of_nat k :: uint64) :: uint32) = of_nat k"
  by (simp add: unsigned_of_nat take_bit_nat_eq_self)

lemma ucast_64_of_nat: "k < 2 ^ 32 \<Longrightarrow> (ucast (of_nat k :: uint32) :: uint64) = of_nat k"
  by (simp add: unsigned_of_nat take_bit_nat_eq_self)

lemma unat_times_12:
  assumes "k < 2 ^ 32"
  shows "unat (of_nat k * 12 :: uint64) = 12 * k"
proof -
  have "12 * k < 2 ^ 64"
    using assms by simp
  moreover have "(of_nat k * 12 :: uint64) = of_nat (12 * k)"
    by simp
  ultimately show ?thesis
    by (simp only: unat_of_nat64)
qed

lemma unat_max64: "unat (- 1 :: uint64) = 2 ^ 64 - 1"
  by (simp add: unsigned_minus_1_eq_mask mask_eq_exp_minus_1)

lemma index_Read_entry:
  assumes c: "map_of d (ifile i) = Some c"
    and ml: "mmap_len i = length c"
    and sz: "unat (index_size i) = 12 * n"
    and n: "12 * n \<le> length c" "n \<le> 2 ^ 32"
    and k: "k < n"
    and e: "take 12 (drop (12 * k) c) = PutUint32 off @ PutUint64 pos"
  shows "index_Read d i (of_nat k) = Inr (off, pos)"
proof -
  have k32: "k < 2 ^ 32"
    using k n by simp
  have k64: "k < 2 ^ 64"
    by (rule lt32_lt64 [OF k32])
  have uk: "unat (of_nat k :: uint64) = k"
    using k64 by (simp add: unat_of_nat)
  have nz: "index_size i \<noteq> 0"
    using sz k by (auto simp: unat_eq_0 [symmetric] simp del: unat_eq_0)
  have "unat (of_nat k :: uint64) \<noteq> unat (- 1 :: uint64)"
    using uk k32 by (simp add: unat_max64)
  then have nm: "(of_nat k :: uint64) \<noteq> - 1"
    by metis
  let ?pos = "ucast (ucast (of_nat k :: uint64) :: uint32) * 12 :: uint64"
  have pos: "unat ?pos = 12 * k"
    using k32 k64 by (simp only: ucast_32_of_nat ucast_64_of_nat unat_times_12)
  have pos12: "unat (?pos + 12) = 12 * k + 12"
    using pos k32 by (simp add: unat_word_ariths)
  have ok: "\<not> index_size i < ?pos + 12"
    using sz k pos12 by (simp add: word_less_nat_alt)
  have b4: "take 4 (drop (12 * k) c) = PutUint32 off"
    using arg_cong [OF e, of "take 4"] by simp
  have "drop 4 (take 12 (drop (12 * k) c)) = PutUint64 pos"
    by (simp add: e)
  then have b8: "take 8 (drop (12 * k + 4) c) = PutUint64 pos"
    by (simp add: drop_take add.commute)
  have len: "\<not> length c < 12 * k + 12"
    using n k by simp
  show ?thesis
    using nz nm ok pos len b4 b8 c ml
    by (simp add: index_Read_def Let_def)
qed

lemma index_Read_empty: "index_size i = 0 \<Longrightarrow> index_Read d i x = Inl EOF"
  by (simp add: index_Read_def)

lemma index_Read_last:
  assumes c: "map_of d (ifile i) = Some c"
    and ml: "mmap_len i = length c"
    and sz: "unat (index_size i) = 12 * Suc m"
    and n: "12 * Suc m \<le> length c" "Suc m \<le> 2 ^ 32"
    and e: "take 12 (drop (12 * m) c) = PutUint32 off @ PutUint64 pos"
  shows "index_Read d i (- 1) = Inr (off, pos)"
proof -
  have m32: "m < 2 ^ 32"
    using n by simp
  have m64: "m < 2 ^ 64"
    by (rule lt32_lt64 [OF m32])
  have nz: "index_size i \<noteq> 0"
    using sz by (auto simp: unat_eq_0 [symmetric] simp del: unat_eq_0)
  have "unat (index_size i div 12) = Suc m"
    using sz by (simp add: unat_div)
  then have "of_nat (unat (index_size i div 12)) = (of_nat (Suc m) :: uint64)"
    by (rule arg_cong)
  then have "index_size i div 12 = of_nat m + 1"
    by simp
  then have out: "index_size i div 12 - 1 = of_nat m"
    by simp
  let ?pos = "ucast (ucast (of_nat m :: uint64) :: uint32) * 12 :: uint64"
  have pos: "unat ?pos = 12 * m"
    using m32 m64 by (simp only: ucast_32_of_nat ucast_64_of_nat unat_times_12)
  have pos12: "unat (?pos + 12) = 12 * m + 12"
    using pos m32 by (simp add: unat_word_ariths)
  have ok: "\<not> index_size i < ?pos + 12"
    using sz pos12 by (simp add: word_less_nat_alt)
  have b4: "take 4 (drop (12 * m) c) = PutUint32 off"
    using arg_cong [OF e, of "take 4"] by simp
  have "drop 4 (take 12 (drop (12 * m) c)) = PutUint64 pos"
    by (simp add: e)
  then have b8: "take 8 (drop (12 * m + 4) c) = PutUint64 pos"
    by (simp add: drop_take add.commute)
  have len: "\<not> length c < 12 * m + 12"
    using n by simp
  show ?thesis
    using nz ok pos len b4 b8 c ml out
    by (simp add: index_Read_def Let_def)
qed

lemma index_Write_room:
  assumes c: "map_of d (ifile i) = Some c"
    and ml: "mmap_len i = length c"
    and sz: "unat (index_size i) = m"
    and room: "m + 12 \<le> length c"
    and small: "length c < 2 ^ 64"
  shows "index_Write d i off pos =
           (None, write_at d (ifile i) m (PutUint32 off @ PutUint64 pos),
            i\<lparr>index_size := index_size i + 12\<rparr>)"
    and "unat (index_size i + 12) = m + 12"
proof -
  show s12: "unat (index_size i + 12) = m + 12"
    using sz room small by (simp add: unat_word_ariths)
  have "unat (of_nat (length c) :: uint64) = length c"
    using small by (simp add: unat_of_nat)
  then have "\<not> (of_nat (length c) :: uint64) < index_size i + 12"
    using s12 room by (simp add: word_less_nat_alt)
  then show "index_Write d i off pos =
           (None, write_at d (ifile i) m (PutUint32 off @ PutUint64 pos),
            i\<lparr>index_size := index_size i + 12\<rparr>)"
    using c ml sz room by (simp add: index_Write_def)
qed

lemma index_Write_full:
  assumes ml: "mmap_len i = length c"
    and sz: "unat (index_size i) = m"
    and full: "length c < m + 12"
    and small: "m + 12 < 2 ^ 64"
  shows "index_Write d i off pos = (Some EOF, d, i)"
proof -
  have "unat (index_size i + 12) = m + 12"
    using sz small by (simp add: unat_word_ariths)
  moreover have "unat (of_nat (length c) :: uint64) = length c"
    using small full by (simp add: unat_of_nat)
  ultimately have "(of_nat (length c) :: uint64) < index_size i + 12"
    using full by (simp add: word_less_nat_alt)
  then show ?thesis
    using ml by (simp add: index_Write_def)
qed

subsection \<open>File names\<close>

lemma digit_props:
  assumes "k < 10"
  shows "is_digit (digit k)" and "digit_val (digit k) = of_nat k"
proof -
  have cases: "k = 0 \<or> k = 1 \<or> k = 2 \<or> k = 3 \<or> k = 4 \<or> k = 5 \<or> k = 6 \<or> k = 7 \<or> k = 8 \<or> k = 9"
    using assms by arith
  then show "is_digit (digit k)"
    by (elim disjE) (simp_all add: is_digit_def digit_def)
  from cases show "digit_val (digit k) = of_nat k"
    by (elim disjE) (simp_all add: digit_val_def digit_def)
qed

lemma ParseUint_loop_append:
  "ParseUint_loop (xs @ ys) n =
     (case ParseUint_loop xs n of (v, None) \<Rightarrow> ParseUint_loop ys v | (v, Some e) \<Rightarrow> (v, Some e))"
  by (induction xs arbitrary: n) simp_all

lemma unat_cutoff: "unat cutoff = 1844674407370955162"
  by (simp add: cutoff_def maxVal_def unat_div unat_max64 unat_word_ariths)

lemma ParseUint_loop_Sprintf_d:
  "n < 2 ^ 64 \<Longrightarrow> ParseUint_loop (Sprintf_d n) 0 = (of_nat n, None)"
proof (induction n rule: Sprintf_d.induct)
  case (1 n)
  show ?case
  proof (cases "n < 10")
    case True
    then have "Sprintf_d n = [digit n]"
      by (simp add: Sprintf_d.simps)
    moreover have "\<not> cutoff \<le> 0"
      by (simp add: word_le_nat_alt unat_cutoff)
    ultimately show ?thesis
      using digit_props [OF True] by simp
  next
    case False
    let ?q = "n div 10" and ?r = "n mod 10"
    have q: "?q < 2 ^ 64" "?q \<le> 1844674407370955161"
      using "1.prems" by simp_all
    have ih: "ParseUint_loop (Sprintf_d ?q) 0 = (of_nat ?q, None)"
      using "1.IH" [OF False] q by simp
    have r: "?r < 10"
      by simp
    have uq: "unat (of_nat ?q :: uint64) = ?q"
      using q by (simp add: unat_of_nat)
    have c: "\<not> cutoff \<le> (of_nat ?q :: uint64)"
      using q uq by (simp add: word_le_nat_alt unat_cutoff)
    have sum: "(of_nat ?q * 10 + of_nat ?r :: uint64) = of_nat n"
      by (metis mult.commute of_nat_add of_nat_mult of_nat_numeral div_mult_mod_eq)
    have "unat (of_nat ?q * 10 :: uint64) = ?q * 10"
      using q uq by (simp add: unat_word_ariths)
    moreover have "unat (of_nat n :: uint64) = n"
      using "1.prems" by (simp add: unat_of_nat)
    ultimately have ov: "\<not> (of_nat ?q * 10 + of_nat ?r :: uint64) < of_nat ?q * 10"
      unfolding sum by (simp add: word_less_nat_alt)
    have "Sprintf_d n = Sprintf_d ?q @ [digit ?r]"
      using False by (subst Sprintf_d.simps) simp
    then show ?thesis
      using ih c ov sum digit_props [OF r]
      by (simp add: ParseUint_loop_append)
  qed
qed

lemma Sprintf_d_nonempty [simp]: "Sprintf_d n \<noteq> []"
  by (subst Sprintf_d.simps) simp

lemma ParseUint_Sprintf_d: "n < 2 ^ 64 \<Longrightarrow> ParseUint (Sprintf_d n) = (of_nat n, None)"
  by (simp add: ParseUint_def ParseUint_loop_Sprintf_d)

lemma Ext_store [simp]: "Ext (ds @ ''.store'') = ''.store''"
  by (simp add: Ext_def numeral_eq_Suc nth_append)

lemma Ext_index [simp]: "Ext (ds @ ''.index'') = ''.index''"
  by (simp add: Ext_def numeral_eq_Suc nth_append)

lemma TrimSuffix_append [simp]: "TrimSuffix (ds @ suf) suf = ds"
  by (simp add: TrimSuffix_def)

lemma unat_lt64: "unat (b :: uint64) < 2 ^ 64"
  using unsigned_less [of b, where 'a = nat] by simp

lemma base_of_store_name [simp]:
  "fst (ParseUint (TrimSuffix (store_name b) (Ext (store_name b)))) = b"
  by (simp add: store_name_def ParseUint_Sprintf_d [OF unat_lt64])

lemma base_of_index_name [simp]:
  "fst (ParseUint (TrimSuffix (index_name b) (Ext (index_name b)))) = b"
  by (simp add: index_name_def ParseUint_Sprintf_d [OF unat_lt64])

lemma store_name_inj [simp]: "store_name a = store_name b \<longleftrightarrow> a = b"
  by (metis base_of_store_name)

lemma index_name_inj [simp]: "index_name a = index_name b \<longleftrightarrow> a = b"
  by (metis base_of_index_name)

lemma store_name_neq_index_name [simp]:
  "store_name a \<noteq> index_name b" "index_name b \<noteq> store_name a"
proof -
  have "Ext (store_name a) \<noteq> Ext (index_name b)"
    by (simp add: store_name_def index_name_def)
  then show "store_name a \<noteq> index_name b" "index_name b \<noteq> store_name a"
    by auto
qed

subsection \<open>What a step leaves alone\<close>

lemma index_Write_frame:
  assumes "index_Write d i off pos = (e, d', i')"
  shows "map fst d' = map fst d"
    and "\<And>name. name \<noteq> ifile i \<Longrightarrow> map_of d' name = map_of d name"
    and "ifile i' = ifile i" "iclosed i' = iclosed i" "mmap_len i' = mmap_len i"
    and "e \<noteq> None \<Longrightarrow> d' = d \<and> i' = i"
  using assms
  by (auto simp: index_Write_def write_at_def update_conv' names_update_present
           split: if_splits option.splits)

lemma open_store_seg:
  "seg_wf s \<Longrightarrow> map_of d (store_name (baseOffset s)) = Some sc \<Longrightarrow> open_store d (store s)"
  by (simp add: seg_wf_def open_store_def)

lemma segment_Append_frame:
  assumes wf: "seg_wf s"
    and sc: "map_of d (store_name (baseOffset s)) = Some sc"
    and ap: "segment_Append pb d s r = (res, r', d', s')"
  shows "same_seg s s' \<and> same_others s d d'
      \<and> (\<forall>e. res = Inl e \<longrightarrow> nextOffset s' = nextOffset s)
      \<and> (\<forall>off. res = Inr off \<longrightarrow> off = nextOffset s \<and> nextOffset s' = nextOffset s + 1)"
proof -
  let ?r = "r\<lparr>Offset := nextOffset s\<rparr>"
  have op: "open_store d (store s)"
    by (rule open_store_seg [OF wf sc])
  have names: "File (store s) = store_name (baseOffset s)" "ifile (index s) = index_name (baseOffset s)"
    using wf by (simp_all add: seg_wf_def)
  show ?thesis
  proof (cases "Marshal pb ?r")
    case (Inl e)
    with ap show ?thesis
      by (auto simp: segment_Append_def Let_def same_seg_def same_others_def)
  next
    case (Inr p)
    obtain d1 st1 where
      sa: "Store_Append d (store s) p = (Inr (of_nat (length p + 8), store_size (store s)), d1, st1)"
      and ext: "store_ext d (store s) d1 st1 (frame p)"
      using Store_Append_open [OF op, of p] by blast
    obtain e d2 ix where
      iw: "index_Write d1 (index s) (ucast (nextOffset s - baseOffset s)) (store_size (store s))
             = (e, d2, ix)"
      by (metis prod_cases3)
    note fr = index_Write_frame [OF iw]
    from ext have st1: "File st1 = File (store s)" "\<not> closed st1" "buf_err st1 = None"
      and d1: "map fst d1 = map fst d"
        "\<And>name. name \<noteq> File (store s) \<Longrightarrow> map_of d1 name = map_of d name"
      by (simp_all add: store_ext_def open_store_def)
    have wfs: "\<not> closed (store s)" "buf_err (store s) = None"
      using wf by (simp_all add: seg_wf_def)
    show ?thesis
    proof (cases e)
      case None
      with ap Inr sa iw have
        "res = Inr (nextOffset s)" "d' = d2"
        "s' = s\<lparr>store := st1, index := ix, nextOffset := nextOffset s + 1\<rparr>"
        by (simp_all add: segment_Append_def Let_def)
      with fr st1 d1 names wfs show ?thesis
        by (simp add: same_seg_def same_others_def)
    next
      case (Some err)
      with ap Inr sa iw have
        "res = Inl err" "d' = d2" "s' = s\<lparr>store := st1, index := ix\<rparr>"
        by (simp_all add: segment_Append_def Let_def)
      with fr st1 d1 names wfs show ?thesis
        by (simp add: same_seg_def same_others_def)
    qed
  qed
qed

lemma count_update [simp]:
  "count (s\<lparr>store := st\<rparr>) = count s" "count (s\<lparr>index := ix\<rparr>) = count s"
  by (simp_all add: count_def)

lemma seg_data_store_ext:
  assumes sd: "seg_data pb w d s"
    and nm: "File (store s) = store_name (baseOffset s)"
    and ext: "store_ext d (store s) d1 st1 q"
    and sz: "store_size st1 = store_size (store s) + of_nat (length q)"
    and small: "unat (store_size (store s)) + length q < 2 ^ 63"
  shows "seg_data pb w d1 (s\<lparr>store := st1\<rparr>)"
proof -
  let ?b = "baseOffset s"
  from sd obtain sc ic where
    sc: "map_of d (store_name ?b) = Some sc"
    and ic: "map_of d (index_name ?b) = Some ic"
    and ssz: "unat (store_size (store s)) = length (sc @ buf (store s))"
    and ml: "mmap_len (index s) = length ic"
    and il: "length ic = unat (MaxIndexBytes (config s))"
    and isz: "unat (index_size (index s)) = 12 * count s"
    and room: "12 * count s \<le> length ic"
    and ent: "\<forall>i<count s. \<exists>pos v p.
           w (?b + of_nat i) = Some v \<and>
           Marshal pb \<lparr>Value = v, Offset = ?b + of_nat i\<rparr> = Inr p \<and>
           take 12 (drop (12 * i) ic) = entry i pos \<and>
           pos + 8 + length p \<le> length (sc @ buf (store s)) \<and>
           take (8 + length p) (drop pos (sc @ buf (store s))) = frame p"
    unfolding seg_data_def by blast
  from ext have op1: "open_store d1 st1" and f1: "File st1 = File (store s)"
    and lg: "logical d1 st1 = logical d (store s) @ q"
    and oth: "\<And>name. name \<noteq> File (store s) \<Longrightarrow> map_of d1 name = map_of d name"
    by (simp_all add: store_ext_def)
  from op1 f1 nm obtain sc1 where sc1: "map_of d1 (store_name ?b) = Some sc1"
    by (auto simp: open_store_def)
  have lc: "sc1 @ buf st1 = (sc @ buf (store s)) @ q"
    using lg sc sc1 nm f1 by (simp add: logical_def)
  have ic1: "map_of d1 (index_name ?b) = Some ic"
    using oth [of "index_name ?b"] ic nm by simp
  have len: "length (sc1 @ buf st1) = length (sc @ buf (store s)) + length q"
    using arg_cong [OF lc, of length] by simp
  have "unat (store_size st1) = unat (store_size (store s)) + length q"
    unfolding sz using small by (simp add: unat_word_ariths unat_of_nat)
  then have ssz1: "unat (store_size st1) = length (sc1 @ buf st1)"
    using ssz len by simp
  have small1: "length (sc1 @ buf st1) < 2 ^ 63"
    using small ssz len by simp
  have ent1: "\<forall>i<count s. \<exists>pos v p.
           w (?b + of_nat i) = Some v \<and>
           Marshal pb \<lparr>Value = v, Offset = ?b + of_nat i\<rparr> = Inr p \<and>
           take 12 (drop (12 * i) ic) = entry i pos \<and>
           pos + 8 + length p \<le> length (sc1 @ buf st1) \<and>
           take (8 + length p) (drop pos (sc1 @ buf st1)) = frame p"
  proof (intro allI impI)
    fix i assume "i < count s"
    with ent obtain pos v p where
      e: "w (?b + of_nat i) = Some v"
        "Marshal pb \<lparr>Value = v, Offset = ?b + of_nat i\<rparr> = Inr p"
        "take 12 (drop (12 * i) ic) = entry i pos"
        "pos + 8 + length p \<le> length (sc @ buf (store s))"
        "take (8 + length p) (drop pos (sc @ buf (store s))) = frame p"
      by blast
    have "take (8 + length p) (drop pos (sc1 @ buf st1)) = frame p"
      unfolding lc using e(4,5) by simp
    with e len show "\<exists>pos v p.
           w (?b + of_nat i) = Some v \<and>
           Marshal pb \<lparr>Value = v, Offset = ?b + of_nat i\<rparr> = Inr p \<and>
           take 12 (drop (12 * i) ic) = entry i pos \<and>
           pos + 8 + length p \<le> length (sc1 @ buf st1) \<and>
           take (8 + length p) (drop pos (sc1 @ buf st1)) = frame p"
      by (intro exI [of _ pos] exI [of _ v] exI [of _ p]) simp
  qed
  show ?thesis
    unfolding seg_data_def
    using sc1 ic1 ssz1 small1 ml il isz room ent1
    by (intro exI [of _ sc1] exI [of _ ic]) simp
qed

lemma take_drop_take:
  "i + k \<le> n \<Longrightarrow> take k (drop i (take n xs)) = take k (drop i xs)"
  by (simp add: drop_take min_def)

lemma seg_off:
  assumes "unat (baseOffset s) \<le> unat (nextOffset s)" and "i \<le> count s"
  shows "unat (baseOffset s + of_nat i) = unat (baseOffset s) + i"
proof -
  have "unat (baseOffset s) + i \<le> unat (nextOffset s)"
    using assms by (simp add: count_def)
  then have lt: "unat (baseOffset s) + i < 2 ^ 64"
    using unat_lt64 [of "nextOffset s"] by simp
  then have "i < 2 ^ 64"
    by simp
  then have "unat (of_nat i :: uint64) = i"
    by (simp add: unat_of_nat)
  with lt show ?thesis
    by (simp add: unat_word_ariths)
qed

lemma seg_next:
  assumes "unat (baseOffset s) \<le> unat (nextOffset s)"
  shows "baseOffset s + of_nat (count s) = nextOffset s"
proof -
  have "unat (baseOffset s + of_nat (count s)) = unat (nextOffset s)"
    using seg_off [OF assms, of "count s"] assms by (simp add: count_def)
  then show ?thesis
    by (simp only: word_unat_eq_iff)
qed

lemma seg_rel:
  assumes "unat (baseOffset s) \<le> unat (nextOffset s)"
  shows "nextOffset s - baseOffset s = of_nat (count s)"
  using seg_next [OF assms] by (metis add_diff_cancel_left')

lemma count_next:
  assumes "unat (baseOffset s) \<le> unat (nextOffset s)" and "unat (nextOffset s) + 1 < 2 ^ 64"
  shows "count (s\<lparr>nextOffset := nextOffset s + 1\<rparr>) = Suc (count s)"
    and "unat (nextOffset s + 1) = unat (nextOffset s) + 1"
proof -
  show "unat (nextOffset s + 1) = unat (nextOffset s) + 1"
    using assms(2) by (simp add: unat_word_ariths)
  then show "count (s\<lparr>nextOffset := nextOffset s + 1\<rparr>) = Suc (count s)"
    using assms(1) by (simp add: count_def)
qed

lemma seg_data_index_write:
  assumes sd: "seg_data pb w d s"
    and nm: "ifile (index s) = index_name (baseOffset s)"
    and le: "unat (baseOffset s) \<le> unat (nextOffset s)"
    and room: "12 * count s + 12 \<le> unat (MaxIndexBytes (config s))"
    and cfgb: "unat (MaxIndexBytes (config s)) \<le> 12 * 2 ^ 32"
    and nowrap: "unat (nextOffset s) + 1 < 2 ^ 64"
    and mar: "Marshal pb \<lparr>Value = v, Offset = nextOffset s\<rparr> = Inr p"
    and fits: "pos + 8 + length p
                 \<le> length (content d (store_name (baseOffset s)) @ buf (store s))"
    and fr: "take (8 + length p)
               (drop pos (content d (store_name (baseOffset s)) @ buf (store s))) = frame p"
  shows "\<exists>d2 ix.
           index_Write d (index s) (ucast (nextOffset s - baseOffset s)) (of_nat pos)
             = (None, d2, ix)
         \<and> seg_data pb (w(nextOffset s \<mapsto> v)) d2
             (s\<lparr>index := ix, nextOffset := nextOffset s + 1\<rparr>)"
proof -
  let ?b = "baseOffset s" and ?n = "count s"
  let ?e = "PutUint32 (ucast (nextOffset s - ?b)) @ PutUint64 (of_nat pos)"
  from sd obtain sc ic where
    sc: "map_of d (store_name ?b) = Some sc"
    and ic: "map_of d (index_name ?b) = Some ic"
    and ssz: "unat (store_size (store s)) = length (sc @ buf (store s))"
    and small: "length (sc @ buf (store s)) < 2 ^ 63"
    and ml: "mmap_len (index s) = length ic"
    and il: "length ic = unat (MaxIndexBytes (config s))"
    and isz: "unat (index_size (index s)) = 12 * ?n"
    and ent: "\<forall>i<?n. \<exists>pos v p.
           w (?b + of_nat i) = Some v \<and>
           Marshal pb \<lparr>Value = v, Offset = ?b + of_nat i\<rparr> = Inr p \<and>
           take 12 (drop (12 * i) ic) = entry i pos \<and>
           pos + 8 + length p \<le> length (sc @ buf (store s)) \<and>
           take (8 + length p) (drop pos (sc @ buf (store s))) = frame p"
    unfolding seg_data_def by blast
  let ?ic' = "take (12 * ?n) ic @ ?e @ drop (12 * ?n + 12) ic"
  let ?d2 = "write_at d (index_name ?b) (12 * ?n) ?e"
  let ?ix = "(index s)\<lparr>index_size := index_size (index s) + 12\<rparr>"
  let ?s' = "s\<lparr>index := ?ix, nextOffset := nextOffset s + 1\<rparr>"
  let ?w' = "w(nextOffset s \<mapsto> v)"
  have n32: "?n < 2 ^ 32"
    using room cfgb by simp
  have lic: "length ic < 2 ^ 64"
    unfolding il by (rule unat_lt64)
  have room': "12 * ?n + 12 \<le> length ic"
    using room il by simp
  have iw: "index_Write d (index s) (ucast (nextOffset s - ?b)) (of_nat pos) = (None, ?d2, ?ix)"
    and isz': "unat (index_size (index s) + 12) = 12 * ?n + 12"
    using index_Write_room [of d "index s" ic "12 * ?n"] ic ml isz room' lic nm
    by simp_all
  have rel: "(ucast (nextOffset s - ?b) :: uint32) = of_nat ?n"
    unfolding seg_rel [OF le] using n32 by (simp add: ucast_32_of_nat lt32_lt64)
  have cnt: "count ?s' = Suc ?n"
    using count_next(1) [OF le nowrap] by (simp add: count_def)
  have ic2: "map_of ?d2 (index_name ?b) = Some ?ic'"
    using ic by (simp add: map_of_write_at_same)
  have sc2: "map_of ?d2 (store_name ?b) = Some sc"
    using ic sc by (simp add: map_of_write_at_same)
  have len': "length ?ic' = length ic"
    using room' by simp
  have csc: "content d (store_name ?b) = sc"
    using sc by simp
  have ent': "\<forall>i<Suc ?n. \<exists>pos v p.
           ?w' (?b + of_nat i) = Some v \<and>
           Marshal pb \<lparr>Value = v, Offset = ?b + of_nat i\<rparr> = Inr p \<and>
           take 12 (drop (12 * i) ?ic') = entry i pos \<and>
           pos + 8 + length p \<le> length (sc @ buf (store s)) \<and>
           take (8 + length p) (drop pos (sc @ buf (store s))) = frame p"
  proof (intro allI impI)
    fix i assume i: "i < Suc ?n"
    show "\<exists>pos v p.
           ?w' (?b + of_nat i) = Some v \<and>
           Marshal pb \<lparr>Value = v, Offset = ?b + of_nat i\<rparr> = Inr p \<and>
           take 12 (drop (12 * i) ?ic') = entry i pos \<and>
           pos + 8 + length p \<le> length (sc @ buf (store s)) \<and>
           take (8 + length p) (drop pos (sc @ buf (store s))) = frame p"
    proof (cases "i = ?n")
      case True
      have "take 12 (drop (12 * ?n) ?ic') = ?e"
        using room' by simp
      then have "take 12 (drop (12 * i) ?ic') = entry i pos"
        using True rel by (simp add: entry_def)
      moreover have "?b + of_nat i = nextOffset s"
        using True seg_next [OF le] by simp
      ultimately show ?thesis
        using mar fits fr csc
        by (intro exI [of _ pos] exI [of _ v] exI [of _ p]) simp
    next
      case False
      with i have lt: "i < ?n"
        by simp
      with ent obtain pos' v' p' where
        e: "w (?b + of_nat i) = Some v'"
          "Marshal pb \<lparr>Value = v', Offset = ?b + of_nat i\<rparr> = Inr p'"
          "take 12 (drop (12 * i) ic) = entry i pos'"
          "pos' + 8 + length p' \<le> length (sc @ buf (store s))"
          "take (8 + length p') (drop pos' (sc @ buf (store s))) = frame p'"
        by blast
      have "unat (?b + of_nat i) = unat ?b + i"
        using seg_off [OF le, of i] lt by simp
      then have "unat (?b + of_nat i) \<noteq> unat (nextOffset s)"
        using lt by (simp add: count_def)
      then have ne: "?b + of_nat i \<noteq> nextOffset s"
        by metis
      have "12 * i + 12 \<le> 12 * ?n"
        using lt by simp
      then have "take 12 (drop (12 * i) ?ic') = take 12 (drop (12 * i) ic)"
        using room' by (simp add: take_drop_take)
      with e ne show ?thesis
        by (intro exI [of _ pos'] exI [of _ v'] exI [of _ p']) simp
    qed
  qed
  have "seg_data pb ?w' ?d2 ?s'"
    unfolding seg_data_def
    using sc2 ic2 ssz small ml il len' isz' room' ent' cnt
    by (intro exI [of _ sc] exI [of _ ?ic']) simp
  with iw show ?thesis
    by blast
qed

lemma record_Offset_update: "r\<lparr>Offset := x\<rparr> = \<lparr>Value = Value r, Offset = x\<rparr>"
  by simp

lemma segment_Append_data:
  assumes wf: "seg_wf s" and sd: "seg_data pb w d s"
    and cfgb: "unat (MaxIndexBytes (config s)) \<le> 12 * 2 ^ 32"
    and nowrap: "unat (nextOffset s) + 1 < 2 ^ 64"
    and fit: "\<forall>p. Marshal pb (r\<lparr>Offset := nextOffset s\<rparr>) = Inr p
                \<longrightarrow> unat (store_size (store s)) + 8 + length p < 2 ^ 63"
    and ap: "segment_Append pb d s r = (res, r', d', s')"
  shows "(\<forall>off. res = Inr off \<longrightarrow> seg_data pb (w(off \<mapsto> Value r)) d' s')
       \<and> (\<forall>e. res = Inl e \<longrightarrow> seg_data pb w d' s')
       \<and> (\<forall>p. Marshal pb (r\<lparr>Offset := nextOffset s\<rparr>) = Inr p \<longrightarrow>
            (if 12 * count s + 12 \<le> unat (MaxIndexBytes (config s))
             then res = Inr (nextOffset s) else res = Inl EOF))"
proof (cases "Marshal pb (r\<lparr>Offset := nextOffset s\<rparr>)")
  case (Inl e)
  with ap sd show ?thesis
    by (auto simp: segment_Append_def Let_def)
next
  case (Inr p)
  let ?b = "baseOffset s"
  from sd obtain sc ic where
    sc: "map_of d (store_name ?b) = Some sc"
    and ic: "map_of d (index_name ?b) = Some ic"
    and ssz: "unat (store_size (store s)) = length (sc @ buf (store s))"
    and ml: "mmap_len (index s) = length ic"
    and il: "length ic = unat (MaxIndexBytes (config s))"
    and isz: "unat (index_size (index s)) = 12 * count s"
    and room0: "12 * count s \<le> length ic"
    unfolding seg_data_def by blast
  have nm: "File (store s) = store_name ?b" "ifile (index s) = index_name ?b"
    and le: "unat ?b \<le> unat (nextOffset s)"
    using wf by (simp_all add: seg_wf_def)
  have op: "open_store d (store s)"
    by (rule open_store_seg [OF wf sc])
  have small: "unat (store_size (store s)) + 8 + length p < 2 ^ 63"
    using fit Inr by simp
  obtain d1 st1 where
    sa: "Store_Append d (store s) p = (Inr (of_nat (length p + 8), store_size (store s)), d1, st1)"
    and ext: "store_ext d (store s) d1 st1 (frame p)"
    and sz1: "store_size st1 = store_size (store s) + of_nat (length p + 8)"
    using Store_Append_open [OF op, of p] by blast
  let ?s1 = "s\<lparr>store := st1\<rparr>"
  have lf: "length (frame p) = length p + 8"
    by (simp add: frame_def)
  have sd1: "seg_data pb w d1 ?s1"
    using seg_data_store_ext [OF sd nm(1) ext] sz1 small lf by simp
  have lg: "logical d1 st1 = (sc @ buf (store s)) @ frame p"
    and f1: "File st1 = store_name ?b"
    and oth: "\<And>name. name \<noteq> store_name ?b \<Longrightarrow> map_of d1 name = map_of d name"
    using ext sc nm by (auto simp: store_ext_def logical_def)
  let ?pos = "length (sc @ buf (store s))"
  have posw: "store_size (store s) = of_nat ?pos"
    using ssz by (metis of_nat_unat ucast_id)
  have lc1: "content d1 (store_name ?b) @ buf st1 = (sc @ buf (store s)) @ frame p"
    using lg f1 by (simp add: logical_def)
  have ic1: "map_of d1 (index_name ?b) = Some ic"
    using oth [of "index_name ?b"] ic by simp
  show ?thesis
  proof (cases "12 * count s + 12 \<le> unat (MaxIndexBytes (config s))")
    case True
    have "\<exists>d2 ix.
           index_Write d1 (index ?s1) (ucast (nextOffset ?s1 - baseOffset ?s1)) (of_nat ?pos)
             = (None, d2, ix)
         \<and> seg_data pb (w(nextOffset ?s1 \<mapsto> Value r)) d2
             (?s1\<lparr>index := ix, nextOffset := nextOffset ?s1 + 1\<rparr>)"
    proof (rule seg_data_index_write [OF sd1, where p = p])
      show "Marshal pb \<lparr>Value = Value r, Offset = nextOffset ?s1\<rparr> = Inr p"
        using Inr by (simp add: record_Offset_update)
      show "?pos + 8 + length p
              \<le> length (content d1 (store_name (baseOffset ?s1)) @ buf (store ?s1))"
        using lc1 lf by simp
      show "take (8 + length p)
              (drop ?pos (content d1 (store_name (baseOffset ?s1)) @ buf (store ?s1))) = frame p"
        using lc1 lf by simp
    qed (use nm le True cfgb nowrap in simp_all)
    then obtain d2 ix where
      iw: "index_Write d1 (index s) (ucast (nextOffset s - ?b)) (store_size (store s))
             = (None, d2, ix)"
      and sd2: "seg_data pb (w(nextOffset s \<mapsto> Value r)) d2
                  (s\<lparr>store := st1, index := ix, nextOffset := nextOffset s + 1\<rparr>)"
      using posw by auto
    from ap Inr sa iw have
      "res = Inr (nextOffset s)" "d' = d2"
      "s' = s\<lparr>store := st1, index := ix, nextOffset := nextOffset s + 1\<rparr>"
      by (simp_all add: segment_Append_def Let_def)
    with sd2 True Inr show ?thesis
      by simp
  next
    case False
    have "12 * count s + 12 < 2 ^ 64"
      using cfgb room0 il by simp
    then have iw: "index_Write d1 (index s) (ucast (nextOffset s - ?b)) (store_size (store s))
             = (Some EOF, d1, index s)"
      using index_Write_full [of "index s" ic "12 * count s" d1] ml isz il False
      by simp
    from ap Inr sa iw have "res = Inl EOF" "d' = d1" "s' = ?s1"
      by (simp_all add: segment_Append_def Let_def)
    with sd1 False Inr show ?thesis
      by simp
  qed
qed

lemma seg_data_flush:
  assumes wf: "seg_wf s" and sd: "seg_data pb w d s"
  shows "seg_data pb w (write_end d (store_name (baseOffset s)) (buf (store s)))
           (s\<lparr>store := (store s)\<lparr>buf := []\<rparr>\<rparr>)"
proof -
  from sd obtain sc where sc: "map_of d (store_name (baseOffset s)) = Some sc"
    and small: "unat (store_size (store s)) < 2 ^ 63"
    unfolding seg_data_def by auto
  have nm: "File (store s) = store_name (baseOffset s)"
    using wf by (simp add: seg_wf_def)
  have op: "open_store d (store s)"
    by (rule open_store_seg [OF wf sc])
  show ?thesis
    using seg_data_store_ext [OF sd nm store_ext_flush [OF op]] small nm
    by simp
qed

lemma Store_Read_state:
  assumes "open_store d st"
  shows "snd (Store_Read d st pos) = (write_end d (File st) (buf st), st\<lparr>buf := []\<rparr>)"
  using bufio_Flush_open [OF assms]
  by (simp add: Store_Read_def split: sum.splits)

lemma segment_Read_state:
  assumes wf: "seg_wf s"
    and sc: "map_of d (store_name (baseOffset s)) = Some sc"
    and rd: "segment_Read pb d s off = (res, d', s')"
  shows "(d' = d \<and> s' = s)
       \<or> (d' = write_end d (store_name (baseOffset s)) (buf (store s))
          \<and> s' = s\<lparr>store := (store s)\<lparr>buf := []\<rparr>\<rparr>)"
proof (cases "index_Read d (index s) (off - baseOffset s)")
  case (Inl e)
  with rd show ?thesis
    by (simp add: segment_Read_def)
next
  case (Inr a)
  obtain x pos where a: "a = (x, pos)"
    by (cases a)
  have nm: "File (store s) = store_name (baseOffset s)"
    using wf by (simp add: seg_wf_def)
  obtain r1 where "Store_Read d (store s) pos =
      (r1, write_end d (File (store s)) (buf (store s)), (store s)\<lparr>buf := []\<rparr>)"
    using Store_Read_state [OF open_store_seg [OF wf sc], of pos]
    by (cases "Store_Read d (store s) pos") simp
  with rd Inr a nm show ?thesis
    by (auto simp: segment_Read_def split: sum.splits)
qed

lemma segment_Read_ok:
  assumes wf: "seg_wf s" and sd: "seg_data pb w d s"
    and cok: "codec_ok pb"
    and cfgb: "unat (MaxIndexBytes (config s)) \<le> 12 * 2 ^ 32"
    and k: "k < count s"
  shows "\<exists>v. w (baseOffset s + of_nat k) = Some v
         \<and> fst (segment_Read pb d s (baseOffset s + of_nat k))
             = Inr \<lparr>Value = v, Offset = baseOffset s + of_nat k\<rparr>"
proof -
  let ?b = "baseOffset s"
  from sd obtain sc ic where
    sc: "map_of d (store_name ?b) = Some sc"
    and ic: "map_of d (index_name ?b) = Some ic"
    and small: "length (sc @ buf (store s)) < 2 ^ 63"
    and ml: "mmap_len (index s) = length ic"
    and il: "length ic = unat (MaxIndexBytes (config s))"
    and isz: "unat (index_size (index s)) = 12 * count s"
    and room: "12 * count s \<le> length ic"
    and ent: "\<forall>i<count s. \<exists>pos v p.
           w (?b + of_nat i) = Some v \<and>
           Marshal pb \<lparr>Value = v, Offset = ?b + of_nat i\<rparr> = Inr p \<and>
           take 12 (drop (12 * i) ic) = entry i pos \<and>
           pos + 8 + length p \<le> length (sc @ buf (store s)) \<and>
           take (8 + length p) (drop pos (sc @ buf (store s))) = frame p"
    unfolding seg_data_def by blast
  from ent k obtain pos v p where
    e: "w (?b + of_nat k) = Some v"
      "Marshal pb \<lparr>Value = v, Offset = ?b + of_nat k\<rparr> = Inr p"
      "take 12 (drop (12 * k) ic) = entry k pos"
      "pos + 8 + length p \<le> length (sc @ buf (store s))"
      "take (8 + length p) (drop pos (sc @ buf (store s))) = frame p"
    by blast
  have nm: "File (store s) = store_name ?b" "ifile (index s) = index_name ?b"
    using wf by (simp_all add: seg_wf_def)
  have n32: "count s \<le> 2 ^ 32"
    using room il cfgb by simp
  have ir: "index_Read d (index s) (of_nat k) = Inr (of_nat k, of_nat pos)"
    using index_Read_entry [of d "index s" ic "count s" k "of_nat k" "of_nat pos"]
      ic nm ml isz room n32 k e(3)
    by (simp add: entry_def)
  have op: "open_store d (store s)"
    by (rule open_store_seg [OF wf sc])
  have lg: "logical d (store s) = sc @ buf (store s)"
    using sc nm by (simp add: logical_def)
  have "pos < 2 ^ 64"
    using e(4) small by simp
  then have up: "unat (of_nat pos :: uint64) = pos"
    by (simp add: unat_of_nat)
  have sr: "Store_Read d (store s) (of_nat pos) =
      (Inr p, write_end d (File (store s)) (buf (store s)), (store s)\<lparr>buf := []\<rparr>)"
    using Store_Read_open [OF op _ _ _ up, of p] lg e(4,5) small by simp
  have "Unmarshal pb p = Inr \<lparr>Value = v, Offset = ?b + of_nat k\<rparr>"
    using cok e(2) by (simp add: codec_ok_def)
  then have "fst (segment_Read pb d s (?b + of_nat k))
      = Inr \<lparr>Value = v, Offset = ?b + of_nat k\<rparr>"
    using ir sr by (simp add: segment_Read_def)
  with e(1) show ?thesis
    by blast
qed

subsection \<open>Opening a segment on fresh names\<close>

lemma map_of_in_names: "name \<in> set (map fst d) \<Longrightarrow> \<exists>c. map_of d name = Some c"
  by (cases "map_of d name") (auto simp: map_of_eq_None_iff)

lemma map_of_notin_names: "name \<notin> set (map fst d) \<Longrightarrow> map_of d name = None"
  by (simp add: map_of_eq_None_iff)

lemma map_of_snoc_absent:
  "k \<notin> set (map fst d) \<Longrightarrow> map_of (d @ [(k, v)]) k = Some v"
  by (simp add: map_add_def map_of_notin_names)

lemma map_of_snoc_other:
  "k' \<noteq> k \<Longrightarrow> map_of (d @ [(k, v)]) k' = map_of d k'"
  by (simp add: map_add_def split: option.splits)

lemma update_at_end:
  "k \<notin> set (map fst xs) \<Longrightarrow> AList.update k v (xs @ [(k, v0)]) = xs @ [(k, v)]"
  by (induction xs) auto

lemma sint_MaxIndexBytes:
  assumes "cfg_ok c"
  shows "sint (MaxIndexBytes c) = int (unat (MaxIndexBytes c))"
proof -
  have "unat (MaxIndexBytes c) < 2 ^ 63"
    using assms by (simp add: cfg_ok_def)
  then show ?thesis
    by (rule sint_small)
qed

lemma newSegment_fresh:
  assumes c: "cfg_ok c"
    and fs: "store_name b \<notin> set (map fst d)"
    and fi: "index_name b \<notin> set (map fst d)"
  shows "newSegment d b c =
           (Inr (fresh_segment b c),
            d @ [(store_name b, []), (index_name b, replicate (unat (MaxIndexBytes c)) 0)])"
proof -
  let ?d1 = "d @ [(store_name b, [])]"
  let ?d2 = "?d1 @ [(index_name b, [])]"
  let ?d3 = "?d1 @ [(index_name b, replicate (unat (MaxIndexBytes c)) 0)]"
  let ?ix = "\<lparr>ifile = index_name b, iclosed = False, mmap_len = unat (MaxIndexBytes c),
               index_size = 0\<rparr>"
  have o1: "os_OpenFile d (store_name b) = ?d1"
    using fs by (simp add: os_OpenFile_absent map_of_notin_names)
  have ns: "newStore ?d1 (store_name b) =
      Inr \<lparr>File = store_name b, closed = False, buf = [], buf_err = None, store_size = 0\<rparr>"
    using fs by (simp add: newStore_def os_Stat_def map_of_snoc_absent del: map_of_append)
  have fi1: "index_name b \<notin> set (map fst ?d1)"
    using fi by simp
  have o2: "os_OpenFile ?d1 (index_name b) = ?d2"
    by (rule os_OpenFile_absent [OF map_of_notin_names [OF fi1]])
  have m2: "map_of ?d2 (index_name b) = Some []"
    by (rule map_of_snoc_absent [OF fi1])
  have nz: "unat (MaxIndexBytes c) \<noteq> 0"
    using c by (simp add: cfg_ok_def unat_eq_0)
  have tr: "os_Truncate ?d2 (index_name b) (sint (MaxIndexBytes c)) = Inr ?d3"
    using m2 update_at_end [OF fi1, of "replicate (unat (MaxIndexBytes c)) 0" "[]"]
    by (simp add: os_Truncate_def sint_MaxIndexBytes [OF c] resize_def)
  have m3: "map_of ?d3 (index_name b) = Some (replicate (unat (MaxIndexBytes c)) 0)"
    by (rule map_of_snoc_absent [OF fi1])
  have ni: "newIndex ?d2 (index_name b) c = (Inr ?ix, ?d3)"
    using m2 tr m3 nz by (simp add: newIndex_def os_Stat_def)
  have rd: "index_Read ?d3 ?ix (- 1) = Inl EOF"
    by (simp add: index_Read_def)
  show ?thesis
    unfolding newSegment_def Let_def o1 ns o2 ni
    by (simp add: index_Read_empty fresh_segment_def)
qed

subsection \<open>Chains of segments\<close>

lemma chained_cong:
  "map baseOffset ss' = map baseOffset ss \<Longrightarrow> map nextOffset ss' = map nextOffset ss
   \<Longrightarrow> chained ss' = chained ss"
proof (induction ss arbitrary: ss' rule: chained.induct)
  case 1
  then show ?case by simp
next
  case (2 s)
  then show ?case by (cases ss') auto
next
  case (3 s t ss)
  from "3.prems" obtain s' t' ts' where ss': "ss' = s' # t' # ts'"
    by (cases ss'; cases "tl ss'") auto
  with "3.prems" "3.IH" [of "t' # ts'"] show ?case
    by simp
qed

lemma chained_snoc:
  "chained (ss @ [s]) \<Longrightarrow> baseOffset s' = baseOffset s \<Longrightarrow> chained (ss @ [s'])"
proof (induction ss rule: chained.induct)
  case 1
  then show ?case by simp
next
  case (2 t)
  then show ?case by auto
next
  case (3 t u ss)
  then show ?case by auto
qed

lemma chained_append_new:
  assumes "chained ss" "ss \<noteq> []" "nextOffset (last ss) = baseOffset t"
    "unat (baseOffset (last ss)) < unat (nextOffset (last ss))"
  shows "chained (ss @ [t])"
  using assms
proof (induction ss rule: chained.induct)
  case 1
  then show ?case by simp
next
  case (2 s)
  then show ?case by simp
next
  case (3 s u ss)
  then show ?case by auto
qed

lemma chained_tl: "chained (s # ss) \<Longrightarrow> chained ss"
  by (cases ss) simp_all

lemma chained_head_before:
  assumes "chained (s # ss)" "\<forall>t\<in>set ss. unat (baseOffset t) \<le> unat (nextOffset t)"
  shows "\<forall>t\<in>set ss. unat (nextOffset s) \<le> unat (baseOffset t)"
  using assms
proof (induction ss arbitrary: s)
  case Nil
  then show ?case by simp
next
  case (Cons u ss)
  from Cons.prems have 1: "nextOffset s = baseOffset u" "chained (u # ss)"
    "unat (baseOffset u) \<le> unat (nextOffset u)"
    by simp_all
  from Cons.IH [OF 1(2)] Cons.prems(2)
  have "\<forall>t\<in>set ss. unat (nextOffset u) \<le> unat (baseOffset t)"
    by simp
  with 1 show ?case
    by auto
qed

lemma chained_filter_suffix:
  "chained ss \<Longrightarrow> chained (drop k ss)"
proof (induction k arbitrary: ss)
  case 0
  then show ?case by simp
next
  case (Suc k)
  then show ?case
    by (cases ss) (simp_all add: chained_tl)
qed

subsection \<open>Fresh segments\<close>

lemma fresh_segment_simps [simp]:
  "baseOffset (fresh_segment b c) = b" "nextOffset (fresh_segment b c) = b"
  "config (fresh_segment b c) = c" "count (fresh_segment b c) = 0"
  by (simp_all add: fresh_segment_def count_def)

lemma seg_wf_fresh [simp]: "seg_wf (fresh_segment b c)"
  by (simp add: seg_wf_def fresh_segment_def)

lemma seg_data_fresh:
  assumes "map_of d (store_name b) = Some []"
    and "map_of d (index_name b) = Some (replicate (unat (MaxIndexBytes c)) 0)"
  shows "seg_data pb w d (fresh_segment b c)"
  using assms by (simp add: seg_data_def fresh_segment_def count_def)

lemma seg_data_frame:
  assumes "seg_data pb w d s"
    and "map_of d' (store_name (baseOffset s)) = map_of d (store_name (baseOffset s))"
    and "map_of d' (index_name (baseOffset s)) = map_of d (index_name (baseOffset s))"
    and "\<forall>i<count s. w' (baseOffset s + of_nat i) = w (baseOffset s + of_nat i)"
  shows "seg_data pb w' d' s"
  using assms unfolding seg_data_def by simp

section \<open>The record handed to \<open>segment_Append\<close>\<close>

text \<open>A store whose file has been closed takes a payload as long as its buffer has room:
  one that overflows the buffer makes the writer flush, and the flush fails.\<close>

lemma Store_Append_closed:
  assumes "closed s" "buf s = []" "buf_err s = None" "4088 < length p"
  shows "Store_Append d s p =
           (Inl ErrClosed, d,
            s\<lparr>buf := PutUint64 (of_nat (length p)) @ take 4088 p, buf_err := Some ErrClosed\<rparr>)"
proof -
  let ?h = "PutUint64 (of_nat (length p))"
  let ?s1 = "s\<lparr>buf := ?h\<rparr>"
  let ?s2 = "s\<lparr>buf := ?h @ take 4088 p, buf_err := Some ErrClosed\<rparr>"
  have "length ?h = 8"
    by simp
  then have hne: "?h \<noteq> []"
    by (cases ?h) simp_all
  have 1: "bufio_Write d s ?h 0 = (8, None, d, ?s1)"
    using assms by (subst bufio_Write.simps) (simp add: defaultBufSize_def)
  have fl: "bufio_Flush d (s\<lparr>buf := ?h @ take 4088 p\<rparr>) = (Some ErrClosed, d, ?s2)"
    using assms hne by (simp add: bufio_Flush_def File_Write_def)
  have 3: "bufio_Write d ?s2 (drop 4088 p) 4088 = (4088, Some ErrClosed, d, ?s2)"
    by (subst bufio_Write.simps) simp
  have 2: "bufio_Write d ?s1 p 0 = (4088, Some ErrClosed, d, ?s2)"
    using assms hne by (subst bufio_Write.simps) (simp add: defaultBufSize_def fl 3)
  show ?thesis
    by (simp add: Store_Append_def Let_def 1 2)
qed

text \<open>C10. \<open>segment_Append\<close> stores the segment's next offset in the caller's record
  before it marshals it, and changes no other field: whatever the outcome, the record
  that comes back is the one that went in with \<open>Offset\<close> replaced by \<open>nextOffset\<close>, and
  that record, not the caller's, is what \<open>Marshal\<close> is given. If \<open>Marshal\<close> refuses it,
  its error is returned and neither the directory nor the segment has changed. If
  \<open>Marshal\<close> gives the bytes \<open>p\<close>, then \<open>p\<close> is what \<open>Store_Append\<close> is given: when that
  fails its error is returned, with the store as the failed call left it; when
  \<open>index_Write\<close> then fails its error is returned, with the store and the index as they
  were left. In the three cases \<open>nextOffset\<close> is what it was. Only when the three steps
  succeed is the offset stored in the record returned and \<open>nextOffset\<close> advanced by
  one.\<close>

theorem segment_Append_record:
  assumes "segment_Append pb d s r = (res, r', d', s')"
  shows "r' = r\<lparr>Offset := nextOffset s\<rparr> \<and> Value r' = Value r
       \<and> (\<forall>e. Marshal pb (r\<lparr>Offset := nextOffset s\<rparr>) = Inl e \<longrightarrow>
              res = Inl e \<and> d' = d \<and> s' = s)
       \<and> (\<forall>p e d1 st.
              Marshal pb (r\<lparr>Offset := nextOffset s\<rparr>) = Inr p \<and>
              Store_Append d (store s) p = (Inl e, d1, st) \<longrightarrow>
              res = Inl e \<and> d' = d1 \<and> s' = s\<lparr>store := st\<rparr>)
       \<and> (\<forall>p n pos d1 st e d2 ix.
              Marshal pb (r\<lparr>Offset := nextOffset s\<rparr>) = Inr p \<and>
              Store_Append d (store s) p = (Inr (n, pos), d1, st) \<and>
              index_Write d1 (index s) (ucast (nextOffset s - baseOffset s)) pos = (Some e, d2, ix) \<longrightarrow>
              res = Inl e \<and> d' = d2 \<and> s' = s\<lparr>store := st, index := ix\<rparr>)
       \<and> (\<forall>p n pos d1 st d2 ix.
              Marshal pb (r\<lparr>Offset := nextOffset s\<rparr>) = Inr p \<and>
              Store_Append d (store s) p = (Inr (n, pos), d1, st) \<and>
              index_Write d1 (index s) (ucast (nextOffset s - baseOffset s)) pos = (None, d2, ix) \<longrightarrow>
              res = Inr (nextOffset s) \<and> d' = d2 \<and>
              s' = s\<lparr>store := st, index := ix, nextOffset := nextOffset s + 1\<rparr>)
       \<and> (\<forall>e. res = Inl e \<longrightarrow> nextOffset s' = nextOffset s)
       \<and> (\<forall>off. res = Inr off \<longrightarrow> off = nextOffset s \<and> nextOffset s' = nextOffset s + 1)"
  using assms
  by (auto simp: segment_Append_def Let_def split: sum.splits prod.splits option.splits)

text \<open>The four outcomes, on the segment opened at base offset 16 with room for one index
  entry. The record \<open>hello\<close> arrives with the offset 77. It is written with the offset 16
  (the bytes in the buffer of the store say so); a second attempt finds the index full
  and comes back with the offset 17, the store one frame longer; the codec that refuses
  it leaves the segment untouched and the record with the offset 16; and on the closed
  segment the record \<open>big\<close> fails in the store and comes back with the offset 16.\<close>

theorem segment_Append_record_witness:
  "newSegment [] 16 one_entry = (Inr seg16, dir16)
   \<and> segment_Append plain_codec dir16 seg16 hello
       = (Inr 16, hello\<lparr>Offset := 16\<rparr>, dir16, seg16_one)
   \<and> segment_Append plain_codec dir16 seg16_one hello
       = (Inl EOF, hello\<lparr>Offset := 17\<rparr>, dir16, seg16_two)
   \<and> segment_Append short_codec dir16 seg16 hello
       = (Inl ErrCodec, hello\<lparr>Offset := 16\<rparr>, dir16, seg16)
   \<and> segment_Close dir16 seg16 = (None, dir16_closed, seg16_closed)
   \<and> segment_Append plain_codec dir16_closed seg16_closed big
       = (Inl ErrClosed, big\<lparr>Offset := 16\<rparr>, dir16_closed,
          seg16_closed\<lparr>store := store16_failed\<rparr>)"
proof -
  have opened: "newSegment [] 16 one_entry = (Inr seg16, dir16)"
    by code_simp
  have closing: "segment_Close dir16 seg16 = (None, dir16_closed, seg16_closed)"
    by code_simp
  have written: "segment_Append plain_codec dir16 seg16 hello
      = (Inr 16, hello\<lparr>Offset := 16\<rparr>, dir16, seg16_one)"
  proof -
    obtain res r' d' s' where
      eq: "segment_Append plain_codec dir16 seg16 hello = (res, r', d', s')"
      by (metis prod_cases4)
    note T = segment_Append_record [OF eq]
    have m: "Marshal plain_codec (hello\<lparr>Offset := nextOffset seg16\<rparr>)
               = Inr (PutUint64 16 @ Value hello)"
      by code_simp
    have a: "Store_Append dir16 (store seg16) (PutUint64 16 @ Value hello)
               = (Inr (21, 0), dir16, store seg16_one)"
      by code_simp
    have w: "index_Write dir16 (index seg16) (ucast (nextOffset seg16 - baseOffset seg16)) 0
               = (None, dir16, index seg16_one)"
      by code_simp
    from T m a w have "res = Inr (nextOffset seg16) \<and> d' = dir16
        \<and> s' = seg16\<lparr>store := store seg16_one, index := index seg16_one,
                      nextOffset := nextOffset seg16 + 1\<rparr>"
      by blast
    moreover from T have "r' = hello\<lparr>Offset := nextOffset seg16\<rparr>"
      by blast
    moreover have "seg16\<lparr>store := store seg16_one, index := index seg16_one,
                         nextOffset := nextOffset seg16 + 1\<rparr> = seg16_one"
      and "nextOffset seg16 = 16"
      by (simp_all add: seg16_one_def seg16_def)
    ultimately show ?thesis
      by (simp add: eq)
  qed
  have index_full: "segment_Append plain_codec dir16 seg16_one hello
      = (Inl EOF, hello\<lparr>Offset := 17\<rparr>, dir16, seg16_two)"
  proof -
    obtain res r' d' s' where
      eq: "segment_Append plain_codec dir16 seg16_one hello = (res, r', d', s')"
      by (metis prod_cases4)
    note T = segment_Append_record [OF eq]
    have m: "Marshal plain_codec (hello\<lparr>Offset := nextOffset seg16_one\<rparr>)
               = Inr (PutUint64 17 @ Value hello)"
      by code_simp
    have a: "Store_Append dir16 (store seg16_one) (PutUint64 17 @ Value hello)
               = (Inr (21, 21), dir16, store seg16_two)"
      by code_simp
    have w: "index_Write dir16 (index seg16_one)
               (ucast (nextOffset seg16_one - baseOffset seg16_one)) 21
               = (Some EOF, dir16, index seg16_one)"
      by code_simp
    from T m a w have "res = Inl EOF \<and> d' = dir16
        \<and> s' = seg16_one\<lparr>store := store seg16_two, index := index seg16_one\<rparr>"
      by blast
    moreover from T have "r' = hello\<lparr>Offset := nextOffset seg16_one\<rparr>"
      by blast
    moreover have "seg16_one\<lparr>store := store seg16_two, index := index seg16_one\<rparr> = seg16_two"
      and "nextOffset seg16_one = 17"
      by (simp_all add: seg16_two_def seg16_one_def seg16_def)
    ultimately show ?thesis
      by (simp add: eq)
  qed
  have no_marshal: "segment_Append short_codec dir16 seg16 hello
      = (Inl ErrCodec, hello\<lparr>Offset := 16\<rparr>, dir16, seg16)"
  proof -
    obtain res r' d' s' where
      eq: "segment_Append short_codec dir16 seg16 hello = (res, r', d', s')"
      by (metis prod_cases4)
    note T = segment_Append_record [OF eq]
    have m: "Marshal short_codec (hello\<lparr>Offset := nextOffset seg16\<rparr>) = Inl ErrCodec"
      by code_simp
    from T m have "res = Inl ErrCodec \<and> d' = dir16 \<and> s' = seg16"
      by simp
    moreover from T have "r' = hello\<lparr>Offset := nextOffset seg16\<rparr>"
      by blast
    moreover have "nextOffset seg16 = 16"
      by (simp add: seg16_def)
    ultimately show ?thesis
      by (simp add: eq)
  qed
  have store_closed: "segment_Append plain_codec dir16_closed seg16_closed big
      = (Inl ErrClosed, big\<lparr>Offset := 16\<rparr>, dir16_closed,
         seg16_closed\<lparr>store := store16_failed\<rparr>)"
  proof -
    obtain res r' d' s' where
      eq: "segment_Append plain_codec dir16_closed seg16_closed big = (res, r', d', s')"
      by (metis prod_cases4)
    note T = segment_Append_record [OF eq]
    have m: "Marshal plain_codec (big\<lparr>Offset := nextOffset seg16_closed\<rparr>)
               = Inr (PutUint64 16 @ replicate 4081 0)"
      by (simp add: plain_codec_def big_def seg16_closed_def seg16_def)
    have a: "Store_Append dir16_closed (store seg16_closed) (PutUint64 16 @ replicate 4081 0)
               = (Inl ErrClosed, dir16_closed, store16_failed)"
      by (simp add: Store_Append_closed seg16_closed_def seg16_def store16_failed_def)
    from T m a have "res = Inl ErrClosed \<and> d' = dir16_closed
        \<and> s' = seg16_closed\<lparr>store := store16_failed\<rparr>"
      by simp
    moreover from T have "r' = big\<lparr>Offset := nextOffset seg16_closed\<rparr>"
      by blast
    moreover have "nextOffset seg16_closed = 16"
      by (simp add: seg16_closed_def seg16_def)
    ultimately show ?thesis
      by (simp add: eq)
  qed
  from opened written index_full no_marshal closing store_closed show ?thesis
    by blast
qed

section \<open>A full index in \<open>Log_Append\<close>\<close>




section \<open>The log as a whole\<close>


subsection \<open>The list of segments and the heap\<close>

lemma map_update_distinct:
  assumes "distinct xs" "k < length xs"
  shows "map (\<lambda>x. if x = xs ! k then v else f x) xs = (map f xs)[k := v]"
proof (rule nth_equalityI)
  show "length (map (\<lambda>x. if x = xs ! k then v else f x) xs) = length ((map f xs)[k := v])"
    by simp
next
  fix i assume "i < length (map (\<lambda>x. if x = xs ! k then v else f x) xs)"
  then have i: "i < length xs" by simp
  then have "(xs ! i = xs ! k) = (i = k)"
    using assms by (simp add: nth_eq_iff_index_eq)
  with i show "map (\<lambda>x. if x = xs ! k then v else f x) xs ! i = (map f xs)[k := v] ! i"
    by (simp add: nth_list_update)
qed

lemma segs_heap_update:
  assumes "distinct (segments l)" "\<forall>a\<in>set (segments l). a < length (heap l)"
    and "k < length (segments l)"
  shows "segs (l\<lparr>heap := (heap l)[segments l ! k := s']\<rparr>) = (segs l)[k := s']"
proof (rule nth_equalityI)
  show "length (segs (l\<lparr>heap := (heap l)[segments l ! k := s']\<rparr>)) = length ((segs l)[k := s'])"
    by (simp add: segs_def)
next
  fix i assume "i < length (segs (l\<lparr>heap := (heap l)[segments l ! k := s']\<rparr>))"
  then have i: "i < length (segments l)"
    by (simp add: segs_def)
  then have "(segments l ! i = segments l ! k) = (i = k)"
    using assms by (simp add: nth_eq_iff_index_eq)
  moreover have "segments l ! i < length (heap l)" "segments l ! k < length (heap l)"
    using assms i by simp_all
  ultimately show "segs (l\<lparr>heap := (heap l)[segments l ! k := s']\<rparr>) ! i = (segs l)[k := s'] ! i"
    using i by (auto simp: segs_def nth_list_update)
qed

lemma length_segs [simp]: "length (segs l) = length (segments l)"
  by (simp add: segs_def)

lemma segs_nth: "k < length (segments l) \<Longrightarrow> segs l ! k = heap l ! (segments l ! k)"
  by (simp add: segs_def)

lemma segs_last: "segments l \<noteq> [] \<Longrightarrow> last (segs l) = heap l ! last (segments l)"
  by (simp add: segs_def last_map)

lemma update_last: "ss \<noteq> [] \<Longrightarrow> ss[length ss - 1 := y] = butlast ss @ [y]"
  by (induction ss rule: rev_induct) simp_all

lemma chained_update:
  assumes "chained ss" "k < length ss" "baseOffset s' = baseOffset (ss ! k)"
    and "nextOffset s' = nextOffset (ss ! k) \<or> Suc k = length ss"
  shows "chained (ss[k := s'])"
proof (cases "nextOffset s' = nextOffset (ss ! k)")
  case True
  have b: "map baseOffset (ss[k := s']) = map baseOffset ss"
    using assms(2,3) by (simp add: map_update list_update_same_conv)
  have n: "map nextOffset (ss[k := s']) = map nextOffset ss"
    using assms(2) True by (simp add: map_update list_update_same_conv)
  have "chained (ss[k := s']) = chained ss"
    using b n by (rule chained_cong)
  then show ?thesis
    using assms(1) by blast
next
  case False
  with assms(4) have k: "k = length ss - 1" and ne: "ss \<noteq> []"
    by auto
  have lst: "ss ! k = last ss"
    using k ne by (simp add: last_conv_nth)
  have "chained (butlast ss @ [last ss])"
    using assms(1) ne by simp
  moreover have "baseOffset s' = baseOffset (last ss)"
    using assms(3) lst by simp
  ultimately have "chained (butlast ss @ [s'])"
    by (rule chained_snoc)
  then show ?thesis
    using update_last [OF ne, of s'] k by simp
qed

lemma log_struct_in_dir:
  assumes "log_struct d l" "s \<in> set (segs l)"
  shows "\<exists>sc. map_of d (store_name (baseOffset s)) = Some sc"
    and "\<exists>ic. map_of d (index_name (baseOffset s)) = Some ic"
proof -
  have nm: "set (map fst d) = (\<Union>b\<in>set (map baseOffset (segs l)). {store_name b, index_name b})"
    using assms(1) by (simp add: log_struct_def)
  have "baseOffset s \<in> set (map baseOffset (segs l))"
    using assms(2) by simp
  then have "store_name (baseOffset s) \<in> set (map fst d)"
    and "index_name (baseOffset s) \<in> set (map fst d)"
    unfolding nm by blast+
  then show "\<exists>sc. map_of d (store_name (baseOffset s)) = Some sc"
    and "\<exists>ic. map_of d (index_name (baseOffset s)) = Some ic"
    by (simp_all only: map_of_in_names)
qed

lemma log_structI:
  assumes "segments l \<noteq> []" "activeSegment l = Some (last (segments l))"
    "distinct (segments l)" "\<forall>a\<in>set (segments l). a < length (heap l)"
    "cfg_ok (Config l)" "\<forall>s\<in>set (segs l). seg_wf s \<and> config s = Config l"
    "chained (segs l)" "distinct (map fst d)"
    "set (map fst d) = (\<Union>b\<in>set (map baseOffset (segs l)). {store_name b, index_name b})"
  shows "log_struct d l"
  unfolding log_struct_def using assms by blast

lemma log_structD:
  assumes "log_struct d l"
  shows "segments l \<noteq> []" "activeSegment l = Some (last (segments l))"
    "distinct (segments l)" "\<forall>a\<in>set (segments l). a < length (heap l)"
    "cfg_ok (Config l)" "\<forall>s\<in>set (segs l). seg_wf s \<and> config s = Config l"
    "chained (segs l)" "distinct (map fst d)"
    "set (map fst d) = (\<Union>b\<in>set (map baseOffset (segs l)). {store_name b, index_name b})"
  using assms unfolding log_struct_def by blast+

lemma log_struct_update:
  assumes ls: "log_struct d l"
    and k: "k < length (segments l)"
    and same: "same_seg (segs l ! k) s'"
    and wf: "seg_wf s'"
    and nx: "nextOffset s' = nextOffset (segs l ! k) \<or> Suc k = length (segments l)"
    and oth: "map fst d' = map fst d"
  shows "log_struct d' (l\<lparr>heap := (heap l)[segments l ! k := s']\<rparr>)"
proof -
  let ?l' = "l\<lparr>heap := (heap l)[segments l ! k := s']\<rparr>"
  note D = log_structD [OF ls]
  have sg: "segs ?l' = (segs l)[k := s']"
    by (rule segs_heap_update [OF D(3) D(4) k])
  have bs: "baseOffset s' = baseOffset (segs l ! k)" "config s' = config (segs l ! k)"
    using same by (simp_all add: same_seg_def)
  have mem: "segs l ! k \<in> set (segs l)"
    using k by simp
  have ch': "chained (segs ?l')"
    unfolding sg
  proof (rule chained_update)
    show "chained (segs l)" by (rule D(7))
    show "k < length (segs l)" using k by simp
    show "baseOffset s' = baseOffset (segs l ! k)" by (rule bs(1))
    show "nextOffset s' = nextOffset (segs l ! k) \<or> Suc k = length (segs l)"
      using nx by simp
  qed
  have al': "\<forall>s\<in>set (segs ?l'). seg_wf s \<and> config s = Config ?l'"
  proof
    fix s assume "s \<in> set (segs ?l')"
    then have "s = s' \<or> s \<in> set (segs l)"
      unfolding sg using set_update_subset_insert [of "segs l" k s'] by auto
    then show "seg_wf s \<and> config s = Config ?l'"
      using wf bs mem D(6) by auto
  qed
  have mb: "map baseOffset (segs ?l') = map baseOffset (segs l)"
    unfolding sg using k bs by (simp add: map_update list_update_same_conv)
  show ?thesis
  proof (rule log_structI)
    show "segments ?l' \<noteq> []" using D(1) by simp
    show "activeSegment ?l' = Some (last (segments ?l'))" using D(2) by simp
    show "distinct (segments ?l')" using D(3) by simp
    show "\<forall>a\<in>set (segments ?l'). a < length (heap ?l')" using D(4) by simp
    show "cfg_ok (Config ?l')" using D(5) by simp
    show "\<forall>s\<in>set (segs ?l'). seg_wf s \<and> config s = Config ?l'" by (rule al')
    show "chained (segs ?l')" by (rule ch')
    show "distinct (map fst d')" using D(8) oth by simp
    show "set (map fst d') = (\<Union>b\<in>set (map baseOffset (segs ?l')). {store_name b, index_name b})"
      unfolding mb oth by (rule D(9))
  qed
qed

subsection \<open>The order of the segments\<close>

lemma chained_before_last:
  assumes "chained ss" "\<forall>t\<in>set ss. unat (baseOffset t) \<le> unat (nextOffset t)"
  shows "\<forall>t\<in>set (butlast ss). unat (baseOffset t) < unat (nextOffset t)
           \<and> unat (nextOffset t) \<le> unat (baseOffset (last ss))"
  using assms
proof (induction ss rule: chained.induct)
  case 1
  then show ?case by simp
next
  case (2 s)
  then show ?case by simp
next
  case (3 s t ss)
  have ch: "chained (t # ss)" and lt: "unat (baseOffset s) < unat (nextOffset s)"
    using "3.prems"(1) by auto
  have wf: "\<forall>u\<in>set (t # ss). unat (baseOffset u) \<le> unat (nextOffset u)"
    using "3.prems"(2) by simp
  have "last (t # ss) \<in> set (t # ss)"
    by (rule last_in_set) simp
  with chained_head_before [OF "3.prems"(1) wf]
  have "unat (nextOffset s) \<le> unat (baseOffset (last (t # ss)))"
    by blast
  moreover note "3.IH" [OF ch wf] lt
  ultimately show ?case
    by simp
qed

lemma chained_first_le:
  assumes "chained (s # ss)" "\<forall>t\<in>set (s # ss). unat (baseOffset t) \<le> unat (nextOffset t)"
  shows "\<forall>t\<in>set (s # ss). unat (baseOffset s) \<le> unat (baseOffset t)"
proof -
  have "\<forall>t\<in>set ss. unat (nextOffset s) \<le> unat (baseOffset t)"
    using assms by (intro chained_head_before) simp_all
  moreover have "unat (baseOffset s) \<le> unat (nextOffset s)"
    using assms(2) by simp
  ultimately show ?thesis
    by fastforce
qed

subsection \<open>Replacing the last segment\<close>

lemma log_inv_struct: "log_inv pb w d l \<Longrightarrow> log_struct d l"
  by (simp add: log_inv_def)

lemma log_inv_data: "log_inv pb w d l \<Longrightarrow> s \<in> set (segs l) \<Longrightarrow> seg_data pb w d s"
  by (simp add: log_inv_def)

lemma log_inv_dom:
  "log_inv pb w d l \<Longrightarrow> w off = Some v
   \<Longrightarrow> \<exists>s\<in>set (segs l). baseOffset s \<le> off \<and> off < nextOffset s"
  by (auto simp: log_inv_def)

lemma log_invI:
  assumes "log_struct d l" "\<forall>s\<in>set (segs l). seg_data pb w d s"
    "\<And>off v. w off = Some v \<Longrightarrow> \<exists>s\<in>set (segs l). baseOffset s \<le> off \<and> off < nextOffset s"
  shows "log_inv pb w d l"
  unfolding log_inv_def using assms by blast

lemma log_struct_last:
  assumes "log_struct d l"
  shows "segs l \<noteq> []" "last (segs l) = heap l ! last (segments l)"
    "last (segs l) \<in> set (segs l)"
    "length (segments l) - 1 < length (segments l)"
    "segments l ! (length (segments l) - 1) = last (segments l)"
    "segs l ! (length (segments l) - 1) = last (segs l)"
    "seg_wf (last (segs l))" "config (last (segs l)) = Config l"
proof -
  have ne: "segments l \<noteq> []"
    using assms by (rule log_structD(1))
  then show 1: "segs l \<noteq> []"
    by (simp add: segs_def)
  show "last (segs l) = heap l ! last (segments l)"
    using ne by (rule segs_last)
  show 3: "last (segs l) \<in> set (segs l)"
    using 1 by (rule last_in_set)
  show "length (segments l) - 1 < length (segments l)"
    using ne by simp
  show "segments l ! (length (segments l) - 1) = last (segments l)"
    using ne by (simp add: last_conv_nth)
  show "segs l ! (length (segments l) - 1) = last (segs l)"
    using 1 by (simp add: last_conv_nth)
  show "seg_wf (last (segs l))" "config (last (segs l)) = Config l"
    using log_structD(6) [OF assms] 3 by blast+
qed

lemma log_struct_wf:
  assumes "log_struct d l"
  shows "\<forall>t\<in>set (segs l). unat (baseOffset t) \<le> unat (nextOffset t)"
  using log_structD(6) [OF assms] by (simp add: seg_wf_def)

lemma same_others_other:
  assumes "same_others s d d'" "baseOffset t \<noteq> baseOffset s"
  shows "map_of d' (store_name (baseOffset t)) = map_of d (store_name (baseOffset t))"
    and "map_of d' (index_name (baseOffset t)) = map_of d (index_name (baseOffset t))"
  using assms by (simp_all add: same_others_def)

lemma log_inv_update_last:
  assumes inv: "log_inv pb w d l"
    and same: "same_seg (last (segs l)) s'" and wf: "seg_wf s'"
    and oth: "same_others (last (segs l)) d d'"
    and sd: "seg_data pb w' d' s'"
    and agree: "\<forall>t\<in>set (butlast (segs l)). \<forall>i<count t.
                  w' (baseOffset t + of_nat i) = w (baseOffset t + of_nat i)"
    and dm: "\<And>off v. w' off = Some v \<Longrightarrow>
               w off = Some v \<or> (baseOffset s' \<le> off \<and> off < nextOffset s')"
    and nx: "unat (nextOffset (last (segs l))) \<le> unat (nextOffset s')"
  shows "log_inv pb w' d' (l\<lparr>heap := (heap l)[last (segments l) := s']\<rparr>)"
    and "segs (l\<lparr>heap := (heap l)[last (segments l) := s']\<rparr>) = butlast (segs l) @ [s']"
proof -
  let ?k = "length (segments l) - 1"
  let ?l' = "l\<lparr>heap := (heap l)[last (segments l) := s']\<rparr>"
  have ls: "log_struct d l"
    using inv by (rule log_inv_struct)
  note D = log_structD [OF ls] and L = log_struct_last [OF ls]
  have nm: "map fst d' = map fst d"
    using oth by (simp add: same_others_def)
  have "log_struct d' (l\<lparr>heap := (heap l)[segments l ! ?k := s']\<rparr>)"
  proof (rule log_struct_update [OF ls L(4) _ wf _ nm])
    show "same_seg (segs l ! ?k) s'"
      using same by (simp only: L(6))
    have "Suc ?k = length (segments l)"
      using D(1) by (cases "segments l") simp_all
    then show "nextOffset s' = nextOffset (segs l ! ?k) \<or> Suc ?k = length (segments l)"
      by (rule disjI2)
  qed
  then have ls': "log_struct d' ?l'"
    by (simp only: L(5))
  have "segs (l\<lparr>heap := (heap l)[segments l ! ?k := s']\<rparr>) = (segs l)[?k := s']"
    by (rule segs_heap_update [OF D(3) D(4) L(4)])
  then have "segs ?l' = (segs l)[length (segs l) - 1 := s']"
    by (simp only: L(5) length_segs)
  then show sg: "segs ?l' = butlast (segs l) @ [s']"
    by (simp only: update_last [OF L(1)])
  have bl: "\<forall>t\<in>set (butlast (segs l)). unat (baseOffset t) < unat (nextOffset t)
           \<and> unat (nextOffset t) \<le> unat (baseOffset (last (segs l)))"
    by (rule chained_before_last [OF D(7) log_struct_wf [OF ls]])
  have bs: "baseOffset s' = baseOffset (last (segs l))"
    using same by (simp add: same_seg_def)
  have data: "\<forall>s\<in>set (segs ?l'). seg_data pb w' d' s"
  proof
    fix t assume "t \<in> set (segs ?l')"
    then consider "t = s'" | "t \<in> set (butlast (segs l))"
      unfolding sg by auto
    then show "seg_data pb w' d' t"
    proof cases
      case 1
      then show ?thesis using sd by simp
    next
      case 2
      then have "t \<in> set (segs l)"
        by (rule in_set_butlastD)
      then have td: "seg_data pb w d t"
        by (rule log_inv_data [OF inv])
      have "unat (baseOffset t) < unat (nextOffset t)
           \<and> unat (nextOffset t) \<le> unat (baseOffset (last (segs l)))"
        using bl 2 by (rule bspec)
      then have "unat (baseOffset t) \<noteq> unat (baseOffset (last (segs l)))"
        by linarith
      then have "baseOffset t \<noteq> baseOffset (last (segs l))"
        by (rule contrapos_nn) (erule arg_cong)
      note same_others_other [OF oth this]
      moreover have "\<forall>i<count t. w' (baseOffset t + of_nat i) = w (baseOffset t + of_nat i)"
        using agree 2 by blast
      ultimately show ?thesis
        by (rule seg_data_frame [OF td])
    qed
  qed
  have "set (segs l) = set (butlast (segs l) @ [last (segs l)])"
    by (simp only: append_butlast_last_id [OF L(1)])
  then have split: "set (segs l) = set (butlast (segs l)) \<union> {last (segs l)}"
    by simp
  show "log_inv pb w' d' ?l'"
  proof (rule log_invI [OF ls' data])
    fix off v assume "w' off = Some v"
    from dm [OF this] show "\<exists>s\<in>set (segs ?l'). baseOffset s \<le> off \<and> off < nextOffset s"
    proof
      assume "w off = Some v"
      from log_inv_dom [OF inv this] obtain s where
        s: "s \<in> set (segs l)" "baseOffset s \<le> off" "off < nextOffset s"
        by blast
      show ?thesis
      proof (cases "s = last (segs l)")
        case True
        have "unat off < unat (nextOffset (last (segs l)))"
          using s(3) unfolding True by (simp only: word_less_nat_alt)
        then have "unat off < unat (nextOffset s')"
          using nx by linarith
        then have "off < nextOffset s'"
          by (simp only: word_less_nat_alt)
        moreover have "baseOffset s' \<le> off"
          using s(2) unfolding True bs .
        ultimately have "baseOffset s' \<le> off \<and> off < nextOffset s'"
          by (rule conjI [rotated])
        then show ?thesis
          unfolding sg by simp
      next
        case False
        with s(1) split have "s \<in> set (butlast (segs l))"
          by blast
        with s(2,3) show ?thesis
          unfolding sg by auto
      qed
    next
      assume "baseOffset s' \<le> off \<and> off < nextOffset s'"
      then show ?thesis
        unfolding sg by simp
    qed
  qed
qed

subsection \<open>Adding a segment\<close>

lemma map_of_two_absent:
  assumes "k1 \<notin> set (map fst d)" "k2 \<notin> set (map fst d)" "k1 \<noteq> k2"
  shows "map_of (d @ [(k1, v1), (k2, v2)]) k1 = Some v1"
    and "map_of (d @ [(k1, v1), (k2, v2)]) k2 = Some v2"
    and "\<And>k. k \<noteq> k1 \<Longrightarrow> k \<noteq> k2 \<Longrightarrow> map_of (d @ [(k1, v1), (k2, v2)]) k = map_of d k"
  using assms by (simp_all add: map_add_def map_of_notin_names split: option.splits)

lemma segs_snoc:
  assumes "\<forall>a\<in>set (segments l). a < length (heap l)"
  shows "segs (l\<lparr>heap := heap l @ [s], segments := segments l @ [length (heap l)],
                 activeSegment := x\<rparr>) = segs l @ [s]"
  using assms by (simp add: segs_def nth_append)

lemma log_struct_bases_below:
  assumes ls: "log_struct d l"
  shows "\<forall>t\<in>set (segs l). unat (baseOffset t) \<le> unat (baseOffset (last (segs l)))"
proof
  fix t assume t: "t \<in> set (segs l)"
  note D = log_structD [OF ls] and L = log_struct_last [OF ls]
  have "set (segs l) = set (butlast (segs l) @ [last (segs l)])"
    by (simp only: append_butlast_last_id [OF L(1)])
  with t consider "t = last (segs l)" | "t \<in> set (butlast (segs l))"
    by auto
  then show "unat (baseOffset t) \<le> unat (baseOffset (last (segs l)))"
  proof cases
    case 1
    then show ?thesis by simp
  next
    case 2
    have "unat (baseOffset t) < unat (nextOffset t)
           \<and> unat (nextOffset t) \<le> unat (baseOffset (last (segs l)))"
      using chained_before_last [OF D(7) log_struct_wf [OF ls]] 2 by (rule bspec)
    then show ?thesis by linarith
  qed
qed

lemma log_struct_fresh_names:
  assumes ls: "log_struct d l"
    and b: "unat (baseOffset (last (segs l))) < unat b"
  shows "store_name b \<notin> set (map fst d)" "index_name b \<notin> set (map fst d)"
proof -
  have nb: "b \<notin> set (map baseOffset (segs l))"
  proof
    assume "b \<in> set (map baseOffset (segs l))"
    then obtain t where t: "t \<in> set (segs l)" "b = baseOffset t"
      by auto
    with log_struct_bases_below [OF ls] have "unat b \<le> unat (baseOffset (last (segs l)))"
      by blast
    with b show False by linarith
  qed
  have nm: "set (map fst d) = (\<Union>b\<in>set (map baseOffset (segs l)). {store_name b, index_name b})"
    using ls by (rule log_structD(9))
  show "store_name b \<notin> set (map fst d)"
    unfolding nm using nb by auto
  show "index_name b \<notin> set (map fst d)"
    unfolding nm using nb by auto
qed

lemma log_inv_newSegment:
  assumes inv: "log_inv pb w d l"
    and b: "b = nextOffset (last (segs l))"
    and ne: "unat (baseOffset (last (segs l))) < unat (nextOffset (last (segs l)))"
  shows "Log_newSegment d l b =
           (None,
            d @ [(store_name b, []), (index_name b, replicate (unat (MaxIndexBytes (Config l))) 0)],
            l\<lparr>heap := heap l @ [fresh_segment b (Config l)],
              segments := segments l @ [length (heap l)],
              activeSegment := Some (length (heap l))\<rparr>)"
    and "log_inv pb w
           (d @ [(store_name b, []), (index_name b, replicate (unat (MaxIndexBytes (Config l))) 0)])
           (l\<lparr>heap := heap l @ [fresh_segment b (Config l)],
              segments := segments l @ [length (heap l)],
              activeSegment := Some (length (heap l))\<rparr>)"
    and "segs (l\<lparr>heap := heap l @ [fresh_segment b (Config l)],
                 segments := segments l @ [length (heap l)],
                 activeSegment := Some (length (heap l))\<rparr>) = segs l @ [fresh_segment b (Config l)]"
proof -
  let ?f = "fresh_segment b (Config l)"
  let ?d' = "d @ [(store_name b, []), (index_name b, replicate (unat (MaxIndexBytes (Config l))) 0)]"
  let ?l' = "l\<lparr>heap := heap l @ [?f], segments := segments l @ [length (heap l)],
               activeSegment := Some (length (heap l))\<rparr>"
  have ls: "log_struct d l"
    using inv by (rule log_inv_struct)
  note D = log_structD [OF ls] and L = log_struct_last [OF ls]
  have lt: "unat (baseOffset (last (segs l))) < unat b"
    using ne b by simp
  note fr = log_struct_fresh_names [OF ls lt]
  have "newSegment d b (Config l) = (Inr ?f, ?d')"
    by (rule newSegment_fresh [OF D(5) fr])
  then show "Log_newSegment d l b = (None, ?d', ?l')"
    by (simp add: Log_newSegment_def)
  show sg: "segs ?l' = segs l @ [?f]"
    by (rule segs_snoc [OF D(4)])
  have names: "map fst ?d' = map fst d @ [store_name b, index_name b]"
    by simp
  have old: "\<And>k. k \<in> set (map fst d) \<Longrightarrow> map_of ?d' k = map_of d k"
  proof -
    fix k assume "k \<in> set (map fst d)"
    with fr have "k \<noteq> store_name b" "k \<noteq> index_name b"
      by blast+
    then show "map_of ?d' k = map_of d k"
      by (rule map_of_two_absent(3) [OF fr store_name_neq_index_name(1)])
  qed
  have nm: "set (map fst d) = (\<Union>b\<in>set (map baseOffset (segs l)). {store_name b, index_name b})"
    by (rule D(9))
  have ls': "log_struct ?d' ?l'"
  proof (rule log_structI)
    show "segments ?l' \<noteq> []" by simp
    show "activeSegment ?l' = Some (last (segments ?l'))" by simp
    show "distinct (segments ?l')" using D(3) D(4) by auto
    show "\<forall>a\<in>set (segments ?l'). a < length (heap ?l')" using D(4) by auto
    show "cfg_ok (Config ?l')" using D(5) by simp
    show "\<forall>s\<in>set (segs ?l'). seg_wf s \<and> config s = Config ?l'"
      unfolding sg using D(6) by auto
    show "chained (segs ?l')"
      unfolding sg
    proof (rule chained_append_new [OF D(7) L(1) _ ne])
      show "nextOffset (last (segs l)) = baseOffset ?f"
        using b by simp
    qed
    show "distinct (map fst ?d')"
      unfolding names using D(8) fr by simp
    show "set (map fst ?d') = (\<Union>b\<in>set (map baseOffset (segs ?l')). {store_name b, index_name b})"
      unfolding names sg using nm by auto
  qed
  have data: "\<forall>s\<in>set (segs ?l'). seg_data pb w ?d' s"
  proof
    fix t assume "t \<in> set (segs ?l')"
    then consider "t = ?f" | "t \<in> set (segs l)"
      unfolding sg by auto
    then show "seg_data pb w ?d' t"
    proof cases
      case 1
      show ?thesis
        unfolding 1
        by (rule seg_data_fresh)
           (rule map_of_two_absent(1,2) [OF fr store_name_neq_index_name(1)])+
    next
      case 2
      then have td: "seg_data pb w d t"
        by (rule log_inv_data [OF inv])
      have "baseOffset t \<in> set (map baseOffset (segs l))"
        using 2 by simp
      then have in_s: "store_name (baseOffset t) \<in> set (map fst d)"
        and in_i: "index_name (baseOffset t) \<in> set (map fst d)"
        unfolding nm by blast+
      have "map_of ?d' (store_name (baseOffset t)) = map_of d (store_name (baseOffset t))"
        using in_s by (rule old)
      moreover have "map_of ?d' (index_name (baseOffset t)) = map_of d (index_name (baseOffset t))"
        using in_i by (rule old)
      ultimately show ?thesis
        by (rule seg_data_frame [OF td]) simp
    qed
  qed
  show "log_inv pb w ?d' ?l'"
  proof (rule log_invI [OF ls' data])
    fix off v assume "w off = Some v"
    from log_inv_dom [OF inv this]
    show "\<exists>s\<in>set (segs ?l'). baseOffset s \<le> off \<and> off < nextOffset s"
      unfolding sg by auto
  qed
qed

subsection \<open>\<open>Log_Append\<close> keeps the log in order\<close>

lemma seg_wf_same:
  assumes "seg_wf s" "same_seg s s'" "unat (baseOffset s) \<le> unat (nextOffset s')"
  shows "seg_wf s'"
  using assms by (simp add: seg_wf_def same_seg_def)

lemma before_last_not_next:
  assumes ls: "log_struct d l" and t: "t \<in> set (butlast (segs l))" and i: "i < count t"
  shows "baseOffset t + of_nat i \<noteq> nextOffset (last (segs l))"
proof -
  note D = log_structD [OF ls] and L = log_struct_last [OF ls]
  have tl: "t \<in> set (segs l)"
    using t by (rule in_set_butlastD)
  have wt: "unat (baseOffset t) \<le> unat (nextOffset t)"
    using log_struct_wf [OF ls] tl by blast
  have "unat (baseOffset t) < unat (nextOffset t)
           \<and> unat (nextOffset t) \<le> unat (baseOffset (last (segs l)))"
    using chained_before_last [OF D(7) log_struct_wf [OF ls]] t by (rule bspec)
  moreover have "unat (baseOffset (last (segs l))) \<le> unat (nextOffset (last (segs l)))"
    using log_struct_wf [OF ls] L(3) by blast
  moreover have "unat (baseOffset t + of_nat i) = unat (baseOffset t) + i"
    using wt i by (intro seg_off) simp_all
  moreover have "unat (baseOffset t) + i < unat (nextOffset t)"
    using i wt by (simp add: count_def)
  ultimately have "unat (baseOffset t + of_nat i) \<noteq> unat (nextOffset (last (segs l)))"
    by linarith
  then show ?thesis
    by (rule contrapos_nn) (erule arg_cong)
qed

lemma Log_Append_inv:
  assumes inv: "log_inv pb w d l"
    and nowrap: "unat (nextOffset (last (segs l))) + 1 < 2 ^ 64"
    and fit: "\<forall>p. Marshal pb (r\<lparr>Offset := nextOffset (last (segs l))\<rparr>) = Inr p
                \<longrightarrow> unat (store_size (store (last (segs l)))) + 8 + length p < 2 ^ 63"
    and ap: "Log_Append pb d l r = (res, r', d', l')"
  shows "(\<forall>off. res = Inr off \<longrightarrow>
            off = nextOffset (last (segs l)) \<and> log_inv pb (w(off \<mapsto> Value r)) d' l'
            \<and> nextOffset (last (segs l')) = off + 1)
       \<and> (\<forall>e. res = Inl e \<longrightarrow>
            log_inv pb w d' l' \<and> nextOffset (last (segs l')) = nextOffset (last (segs l)))"
proof -
  let ?s = "last (segs l)"
  let ?a = "last (segments l)"
  have ls: "log_struct d l"
    using inv by (rule log_inv_struct)
  note D = log_structD [OF ls] and L = log_struct_last [OF ls]
  have wf: "seg_wf ?s" by (rule L(7))
  have le: "unat (baseOffset ?s) \<le> unat (nextOffset ?s)"
    using wf by (simp add: seg_wf_def)
  have sd: "seg_data pb w d ?s"
    using inv L(3) by (rule log_inv_data)
  obtain sc where sc: "map_of d (store_name (baseOffset ?s)) = Some sc"
    using log_struct_in_dir(1) [OF ls L(3)] by blast
  have cfgb: "unat (MaxIndexBytes (config ?s)) \<le> 12 * 2 ^ 32"
    using D(5) unfolding L(8) by (simp add: cfg_ok_def)
  obtain res1 r1 d1 s1 where sa: "segment_Append pb d ?s r = (res1, r1, d1, s1)"
    by (metis prod_cases4)
  note F = segment_Append_frame [OF wf sc sa]
  note Dt = segment_Append_data [OF wf sd cfgb nowrap fit sa]
  have same: "same_seg ?s s1" and oth: "same_others ?s d d1"
    using F by blast+
  have n1: "unat (nextOffset (?s\<lparr>nextOffset := nextOffset ?s + 1\<rparr>)) = unat (nextOffset ?s) + 1"
    using count_next(2) [OF le nowrap] by simp
  have nxt: "nextOffset s1 = nextOffset ?s \<or> nextOffset s1 = nextOffset ?s + 1"
    using F by (cases res1) auto
  then have nx: "unat (nextOffset ?s) \<le> unat (nextOffset s1)"
    using n1 by auto
  have wf1: "seg_wf s1"
    using wf same by (rule seg_wf_same) (use le nx in linarith)
  let ?l1 = "l\<lparr>heap := (heap l)[?a := s1]\<rparr>"
  have act: "activeSegment l = Some ?a"
    by (rule D(2))
  have sa': "segment_Append pb d (heap l ! ?a) r = (res1, r1, d1, s1)"
    using sa by (simp only: L(2))
  show ?thesis
  proof (cases res1)
    case (Inl e)
    have "Log_Append pb d l r = (Inl e, r1, d1, ?l1)"
      by (simp add: Log_Append_def act sa' Inl)
    with ap have eq: "res = Inl e" "d' = d1" "l' = ?l1"
      by simp_all
    have "seg_data pb w d1 s1"
      using Dt Inl by blast
    note U = log_inv_update_last [OF inv same wf1 oth this _ _ nx]
    have inv1: "log_inv pb w d1 ?l1"
      by (rule U(1)) simp_all
    have sg: "segs ?l1 = butlast (segs l) @ [s1]"
      by (rule U(2)) simp_all
    have "nextOffset s1 = nextOffset ?s"
      using F Inl by blast
    then show ?thesis
      using inv1 by (simp add: eq sg)
  next
    case (Inr off)
    have off: "off = nextOffset ?s" and nx1: "nextOffset s1 = nextOffset ?s + 1"
      using F Inr by blast+
    have un1: "unat (nextOffset s1) = unat (nextOffset ?s) + 1"
      using n1 nx1 by simp
    have bs1: "baseOffset s1 = baseOffset ?s"
      using same by (simp add: same_seg_def)
    let ?w = "w(off \<mapsto> Value r)"
    have sd1: "seg_data pb ?w d1 s1"
      using Dt Inr by blast
    have agree: "\<forall>t\<in>set (butlast (segs l)). \<forall>i<count t.
                  ?w (baseOffset t + of_nat i) = w (baseOffset t + of_nat i)"
    proof (intro ballI allI impI)
      fix t i assume "t \<in> set (butlast (segs l))" "i < count t"
      with ls have "baseOffset t + of_nat i \<noteq> nextOffset ?s"
        by (rule before_last_not_next)
      then show "?w (baseOffset t + of_nat i) = w (baseOffset t + of_nat i)"
        unfolding off by simp
    qed
    have dm: "\<And>x v. ?w x = Some v \<Longrightarrow>
               w x = Some v \<or> (baseOffset s1 \<le> x \<and> x < nextOffset s1)"
    proof -
      fix x v assume h: "?w x = Some v"
      show "w x = Some v \<or> (baseOffset s1 \<le> x \<and> x < nextOffset s1)"
      proof (cases "x = off")
        case True
        have "baseOffset s1 \<le> x"
          unfolding True off bs1 using le by (simp only: word_le_nat_alt)
        moreover have "x < nextOffset s1"
          unfolding True off using un1 by (simp add: word_less_nat_alt)
        ultimately show ?thesis by blast
      next
        case False
        with h show ?thesis by simp
      qed
    qed
    note U = log_inv_update_last [OF inv same wf1 oth sd1 agree dm nx]
    have inv1: "log_inv pb ?w d1 ?l1" by (rule U(1))
    have sg: "segs ?l1 = butlast (segs l) @ [s1]" by (rule U(2))
    have last1: "last (segs ?l1) = s1"
      unfolding sg by simp
    show ?thesis
    proof (cases "IsMaxed s1")
      case False
      have "Log_Append pb d l r = (Inr off, r1, d1, ?l1)"
        by (simp add: Log_Append_def act sa' Inr False)
      with ap have eq: "res = Inr off" "d' = d1" "l' = ?l1"
        by simp_all
      show ?thesis
        using inv1 off nx1 by (simp add: eq last1)
    next
      case True
      have b: "off + 1 = nextOffset (last (segs ?l1))"
        unfolding last1 nx1 off ..
      have ne: "unat (baseOffset (last (segs ?l1))) < unat (nextOffset (last (segs ?l1)))"
        unfolding last1 bs1 using un1 le by linarith
      note N = log_inv_newSegment [OF inv1 b ne]
      let ?f = "fresh_segment (off + 1) (Config ?l1)"
      let ?d2 = "d1 @ [(store_name (off + 1), []),
                       (index_name (off + 1), replicate (unat (MaxIndexBytes (Config ?l1))) 0)]"
      let ?l2 = "?l1\<lparr>heap := heap ?l1 @ [?f], segments := segments ?l1 @ [length (heap ?l1)],
                     activeSegment := Some (length (heap ?l1))\<rparr>"
      have "Log_Append pb d l r = (Inr off, r1, ?d2, ?l2)"
        by (simp add: Log_Append_def act sa' Inr True N(1) del: Log.simps)
      with ap have eq: "res = Inr off" "d' = ?d2" "l' = ?l2"
        by simp_all
      have "nextOffset (last (segs ?l2)) = off + 1"
        unfolding N(3) by simp
      then show ?thesis
        unfolding eq using N(2) off by simp
    qed
  qed
qed

subsection \<open>\<open>Log_Read\<close> keeps the log in order\<close>

lemma chained_distinct_bases:
  assumes "chained ss" "\<forall>t\<in>set ss. unat (baseOffset t) \<le> unat (nextOffset t)"
  shows "distinct (map baseOffset ss)"
  using assms
proof (induction ss rule: chained.induct)
  case 1
  then show ?case by simp
next
  case (2 s)
  then show ?case by simp
next
  case (3 s t ss)
  have ch: "chained (t # ss)" and lt: "unat (baseOffset s) < unat (nextOffset s)"
    using "3.prems"(1) by auto
  have wf: "\<forall>u\<in>set (t # ss). unat (baseOffset u) \<le> unat (nextOffset u)"
    using "3.prems"(2) by simp
  have after: "\<forall>u\<in>set (t # ss). unat (nextOffset s) \<le> unat (baseOffset u)"
    by (rule chained_head_before [OF "3.prems"(1) wf])
  have "baseOffset s \<notin> set (map baseOffset (t # ss))"
  proof
    assume "baseOffset s \<in> set (map baseOffset (t # ss))"
    then obtain u where u: "u \<in> set (t # ss)" "baseOffset s = baseOffset u"
      by auto
    from after u(1) have "unat (nextOffset s) \<le> unat (baseOffset u)"
      by (rule bspec)
    with lt u(2) show False
      by simp
  qed
  moreover have "distinct (map baseOffset (t # ss))"
    by (rule "3.IH" [OF ch wf])
  ultimately show ?case
    by simp
qed

lemma log_struct_distinct_bases:
  assumes "log_struct d l" "i < length (segs l)" "j < length (segs l)" "i \<noteq> j"
  shows "baseOffset (segs l ! i) \<noteq> baseOffset (segs l ! j)"
proof -
  have "distinct (map baseOffset (segs l))"
    by (rule chained_distinct_bases [OF log_structD(7) [OF assms(1)] log_struct_wf [OF assms(1)]])
  moreover have "i < length (map baseOffset (segs l))" "j < length (map baseOffset (segs l))"
    using assms(2,3) by simp_all
  ultimately have "map baseOffset (segs l) ! i \<noteq> map baseOffset (segs l) ! j"
    using assms(4) by (simp add: nth_eq_iff_index_eq del: nth_map length_map)
  then show ?thesis
    using assms(2,3) by simp
qed

lemma log_inv_update:
  assumes inv: "log_inv pb w d l"
    and k: "k < length (segments l)"
    and same: "same_seg (segs l ! k) s'" and wf: "seg_wf s'"
    and oth: "same_others (segs l ! k) d d'"
    and sd: "seg_data pb w d' s'"
    and nx: "nextOffset s' = nextOffset (segs l ! k)"
  shows "log_inv pb w d' (l\<lparr>heap := (heap l)[segments l ! k := s']\<rparr>)"
    and "segs (l\<lparr>heap := (heap l)[segments l ! k := s']\<rparr>) = (segs l)[k := s']"
proof -
  let ?l' = "l\<lparr>heap := (heap l)[segments l ! k := s']\<rparr>"
  have ls: "log_struct d l"
    using inv by (rule log_inv_struct)
  note D = log_structD [OF ls]
  have nm: "map fst d' = map fst d"
    using oth by (simp add: same_others_def)
  have ls': "log_struct d' ?l'"
    by (rule log_struct_update [OF ls k same wf _ nm]) (simp add: nx)
  show sg: "segs ?l' = (segs l)[k := s']"
    by (rule segs_heap_update [OF D(3) D(4) k])
  have k': "k < length (segs l)"
    using k by simp
  have bs: "baseOffset s' = baseOffset (segs l ! k)"
    using same by (simp add: same_seg_def)
  have data: "\<forall>s\<in>set (segs ?l'). seg_data pb w d' s"
  proof
    fix t assume "t \<in> set (segs ?l')"
    then obtain j where j: "j < length (segs l)" "t = (segs l)[k := s'] ! j"
      unfolding sg by (auto simp: in_set_conv_nth)
    show "seg_data pb w d' t"
    proof (cases "j = k")
      case True
      with j sd show ?thesis by simp
    next
      case False
      with j have t: "t = segs l ! j"
        by simp
      then have "t \<in> set (segs l)"
        using j(1) by simp
      then have td: "seg_data pb w d t"
        by (rule log_inv_data [OF inv])
      have "baseOffset t \<noteq> baseOffset (segs l ! k)"
        unfolding t by (rule log_struct_distinct_bases [OF ls j(1) k' False])
      note same_others_other [OF oth this]
      then show ?thesis
        by (rule seg_data_frame [OF td]) simp
    qed
  qed
  show "log_inv pb w d' ?l'"
  proof (rule log_invI [OF ls' data])
    fix off v assume "w off = Some v"
    from log_inv_dom [OF inv this] obtain s where
      s: "s \<in> set (segs l)" "baseOffset s \<le> off" "off < nextOffset s"
      by blast
    then obtain j where j: "j < length (segs l)" "s = segs l ! j"
      by (auto simp: in_set_conv_nth)
    have mem: "(segs l)[k := s'] ! j \<in> set (segs ?l')"
      unfolding sg using j(1) by simp
    show "\<exists>s\<in>set (segs ?l'). baseOffset s \<le> off \<and> off < nextOffset s"
    proof (cases "j = k")
      case True
      then have "(segs l)[k := s'] ! j = s'"
        using k' by simp
      with mem have "s' \<in> set (segs ?l')"
        by simp
      moreover have "baseOffset s' \<le> off \<and> off < nextOffset s'"
        using s(2,3) unfolding j(2) True bs nx by simp
      ultimately show ?thesis by blast
    next
      case False
      then have "(segs l)[k := s'] ! j = s"
        using j by simp
      with mem s(2,3) show ?thesis by auto
    qed
  qed
qed

lemma in_segment:
  fixes off :: uint64
  assumes "baseOffset s \<le> off" "off < nextOffset s"
  shows "\<exists>i<count s. off = baseOffset s + of_nat i"
proof (intro exI conjI)
  have b: "unat (baseOffset s) \<le> unat off" and n: "unat off < unat (nextOffset s)"
    using assms by (simp_all add: word_le_nat_alt word_less_nat_alt)
  then show "unat off - unat (baseOffset s) < count s"
    unfolding count_def by linarith
  have "unat (off - baseOffset s) = unat off - unat (baseOffset s)"
    using assms(1) by (rule unat_sub)
  then have "of_nat (unat off - unat (baseOffset s)) = off - baseOffset s"
    by (metis of_nat_unat ucast_id)
  then show "off = baseOffset s + of_nat (unat off - unat (baseOffset s))"
    by simp
qed

lemma same_seg_refl: "same_seg s s"
  by (simp add: same_seg_def)

lemma same_others_refl: "same_others s d d"
  by (simp add: same_others_def)

lemma same_others_flush:
  assumes "seg_wf s" "map_of d (store_name (baseOffset s)) = Some sc"
  shows "same_others s d (write_end d (store_name (baseOffset s)) (buf (store s)))"
  using assms by (simp add: same_others_def map_of_write_end_same)

lemma segment_Read_inv:
  assumes wf: "seg_wf s" and sd: "seg_data pb w d s"
    and rd: "segment_Read pb d s off = (res, d', s')"
  shows "same_seg s s'" "seg_wf s'" "same_others s d d'" "seg_data pb w d' s'"
    "nextOffset s' = nextOffset s"
proof -
  obtain sc where sc: "map_of d (store_name (baseOffset s)) = Some sc"
    using sd by (auto simp: seg_data_def)
  from segment_Read_state [OF wf sc rd]
  consider "d' = d" "s' = s"
    | "d' = write_end d (store_name (baseOffset s)) (buf (store s))"
      "s' = s\<lparr>store := (store s)\<lparr>buf := []\<rparr>\<rparr>"
    by blast
  then have "same_seg s s' \<and> seg_wf s' \<and> same_others s d d' \<and> seg_data pb w d' s'
      \<and> nextOffset s' = nextOffset s"
  proof cases
    case 1
    then show ?thesis
      using wf sd by (simp add: same_seg_refl same_others_refl)
  next
    case 2
    have "same_seg s s'" "seg_wf s'" "nextOffset s' = nextOffset s"
      using wf unfolding 2 by (simp_all add: same_seg_def seg_wf_def)
    moreover have "same_others s d d'"
      unfolding 2 using wf sc by (rule same_others_flush)
    moreover have "seg_data pb w d' s'"
      unfolding 2 using wf sd by (rule seg_data_flush)
    ultimately show ?thesis by blast
  qed
  then show "same_seg s s'" "seg_wf s'" "same_others s d d'" "seg_data pb w d' s'"
    "nextOffset s' = nextOffset s"
    by blast+
qed

lemma Log_Read_none:
  assumes "\<forall>s\<in>set (segs l). \<not> (baseOffset s \<le> off \<and> off < nextOffset s)"
  shows "Log_Read pb d l off = (Inl (ErrorOffsetOutOfRange off), d, l)"
proof -
  have "find (\<lambda>a. baseOffset (heap l ! a) \<le> off \<and> off < nextOffset (heap l ! a)) (segments l)
          = None"
    using assms by (simp add: find_None_iff segs_def)
  then show ?thesis
    by (simp add: Log_Read_def)
qed

lemma Log_Read_some:
  assumes "\<exists>s\<in>set (segs l). baseOffset s \<le> off \<and> off < nextOffset s"
  shows "\<exists>k<length (segments l).
           baseOffset (segs l ! k) \<le> off \<and> off < nextOffset (segs l ! k)
           \<and> Log_Read pb d l off =
               (case segment_Read pb d (segs l ! k) off of
                  (r, d1, s) \<Rightarrow> (r, d1, l\<lparr>heap := (heap l)[segments l ! k := s]\<rparr>))"
proof -
  let ?P = "\<lambda>a. baseOffset (heap l ! a) \<le> off \<and> off < nextOffset (heap l ! a)"
  have "find ?P (segments l) \<noteq> None"
    using assms by (auto simp: find_None_iff segs_def)
  then obtain a where f: "find ?P (segments l) = Some a"
    by blast
  then obtain k where k: "k < length (segments l)" "segments l ! k = a" "?P a"
    by (auto simp: find_Some_iff)
  have sk: "segs l ! k = heap l ! a"
    using k(1,2) by (simp add: segs_def)
  have "\<not> nextOffset (heap l ! a) \<le> off"
    using k(3) by (simp add: not_le)
  then have "Log_Read pb d l off =
               (case segment_Read pb d (heap l ! a) off of
                  (r, d1, s) \<Rightarrow> (r, d1, l\<lparr>heap := (heap l)[a := s]\<rparr>))"
    by (simp add: Log_Read_def f)
  with k show ?thesis
    unfolding sk [symmetric] by blast
qed

lemma Log_Read_inv:
  assumes inv: "log_inv pb w d l" and cok: "codec_ok pb"
    and rd: "Log_Read pb d l off = (res, d', l')"
  shows "log_inv pb w d' l'"
    and "map baseOffset (segs l') = map baseOffset (segs l)"
    and "map nextOffset (segs l') = map nextOffset (segs l)"
    and "(\<exists>s\<in>set (segs l). baseOffset s \<le> off \<and> off < nextOffset s)
         \<Longrightarrow> \<exists>v. w off = Some v \<and> res = Inr \<lparr>Value = v, Offset = off\<rparr>"
    and "(\<forall>s\<in>set (segs l). \<not> (baseOffset s \<le> off \<and> off < nextOffset s))
         \<Longrightarrow> res = Inl (ErrorOffsetOutOfRange off)"
proof -
  have ls: "log_struct d l"
    using inv by (rule log_inv_struct)
  note D = log_structD [OF ls]
  have "log_inv pb w d' l'
      \<and> map baseOffset (segs l') = map baseOffset (segs l)
      \<and> map nextOffset (segs l') = map nextOffset (segs l)
      \<and> ((\<exists>s\<in>set (segs l). baseOffset s \<le> off \<and> off < nextOffset s)
         \<longrightarrow> (\<exists>v. w off = Some v \<and> res = Inr \<lparr>Value = v, Offset = off\<rparr>))
      \<and> ((\<forall>s\<in>set (segs l). \<not> (baseOffset s \<le> off \<and> off < nextOffset s))
         \<longrightarrow> res = Inl (ErrorOffsetOutOfRange off))"
  proof (cases "\<exists>s\<in>set (segs l). baseOffset s \<le> off \<and> off < nextOffset s")
    case False
    then have "Log_Read pb d l off = (Inl (ErrorOffsetOutOfRange off), d, l)"
      by (intro Log_Read_none) blast
    with rd have "res = Inl (ErrorOffsetOutOfRange off)" "d' = d" "l' = l"
      by simp_all
    with inv False show ?thesis
      by simp
  next
    case True
    from Log_Read_some [OF True, of pb d] obtain k where
      k: "k < length (segments l)"
      and rg: "baseOffset (segs l ! k) \<le> off" "off < nextOffset (segs l ! k)"
      and eq: "Log_Read pb d l off =
               (case segment_Read pb d (segs l ! k) off of
                  (r, d1, s) \<Rightarrow> (r, d1, l\<lparr>heap := (heap l)[segments l ! k := s]\<rparr>))"
      by blast
    let ?s = "segs l ! k"
    obtain r1 d1 s1 where sr: "segment_Read pb d ?s off = (r1, d1, s1)"
      by (metis prod_cases3)
    with eq rd have res: "res = r1" "d' = d1" "l' = l\<lparr>heap := (heap l)[segments l ! k := s1]\<rparr>"
      by simp_all
    have mem: "?s \<in> set (segs l)"
      using k by simp
    have wf: "seg_wf ?s" and cf: "config ?s = Config l"
      using D(6) mem by blast+
    have sd: "seg_data pb w d ?s"
      using inv mem by (rule log_inv_data)
    note R = segment_Read_inv [OF wf sd sr]
    note U = log_inv_update [OF inv k R(1) R(2) R(3) R(4) R(5)]
    have bs: "baseOffset s1 = baseOffset ?s"
      using R(1) by (simp add: same_seg_def)
    have k': "k < length (segs l)"
      using k by simp
    have mb: "map baseOffset (segs l') = map baseOffset (segs l)"
      unfolding res U(2) using k' bs by (simp add: map_update list_update_same_conv)
    have mn: "map nextOffset (segs l') = map nextOffset (segs l)"
      unfolding res U(2) using k' R(5) by (simp add: map_update list_update_same_conv)
    have cfgb: "unat (MaxIndexBytes (config ?s)) \<le> 12 * 2 ^ 32"
      using D(5) unfolding cf by (simp add: cfg_ok_def)
    obtain i where i: "i < count ?s" "off = baseOffset ?s + of_nat i"
      using in_segment [OF rg] by blast
    from segment_Read_ok [OF wf sd cok cfgb i(1)] obtain v where
      v: "w (baseOffset ?s + of_nat i) = Some v"
         "fst (segment_Read pb d ?s (baseOffset ?s + of_nat i))
             = Inr \<lparr>Value = v, Offset = baseOffset ?s + of_nat i\<rparr>"
      by blast
    have "w off = Some v \<and> res = Inr \<lparr>Value = v, Offset = off\<rparr>"
      using v sr unfolding i(2) [symmetric] res by simp
    then show ?thesis
      using U(1) mb mn True unfolding res by blast
  qed
  then show "log_inv pb w d' l'"
    and "map baseOffset (segs l') = map baseOffset (segs l)"
    and "map nextOffset (segs l') = map nextOffset (segs l)"
    and "(\<exists>s\<in>set (segs l). baseOffset s \<le> off \<and> off < nextOffset s)
         \<Longrightarrow> \<exists>v. w off = Some v \<and> res = Inr \<lparr>Value = v, Offset = off\<rparr>"
    and "(\<forall>s\<in>set (segs l). \<not> (baseOffset s \<le> off \<and> off < nextOffset s))
         \<Longrightarrow> res = Inl (ErrorOffsetOutOfRange off)"
    by blast+
qed

subsection \<open>\<open>NewLog\<close> in an empty directory\<close>

lemma NewLog_with_defaults:
  "NewLog d c = Log_setup d \<lparr>Config = with_defaults c, heap = [], activeSegment = None, segments = []\<rparr>"
  by (simp add: NewLog_def with_defaults_def Let_def)

lemma with_defaults_simps [simp]:
  "InitialOffset (with_defaults c) = InitialOffset c"
  "MaxStoreBytes (with_defaults c) \<noteq> 0"
  "MaxIndexBytes (with_defaults c) \<noteq> 0"
  "MaxIndexBytes c \<noteq> 0 \<Longrightarrow> MaxIndexBytes (with_defaults c) = MaxIndexBytes c"
  "MaxStoreBytes c \<noteq> 0 \<Longrightarrow> MaxStoreBytes (with_defaults c) = MaxStoreBytes c"
  by (simp_all add: with_defaults_def Let_def)

lemma cfg_ok_with_defaults:
  "unat (MaxIndexBytes c) \<le> 12 * 2 ^ 32 \<Longrightarrow> cfg_ok (with_defaults c)"
  by (cases "MaxIndexBytes c = 0") (simp_all add: cfg_ok_def with_defaults_def Let_def)

lemma segs_empty_log [simp]: "segs (empty_log c) = [fresh_segment (InitialOffset c) c]"
  by (simp add: segs_def empty_log_def)

lemma log_inv_empty:
  assumes "cfg_ok c"
  shows "log_inv pb Map.empty (empty_dir c) (empty_log c)"
proof (rule log_invI)
  show "log_struct (empty_dir c) (empty_log c)"
  proof (rule log_structI)
    show "segments (empty_log c) \<noteq> []" by (simp add: empty_log_def)
    show "activeSegment (empty_log c) = Some (last (segments (empty_log c)))"
      by (simp add: empty_log_def)
    show "distinct (segments (empty_log c))" by (simp add: empty_log_def)
    show "\<forall>a\<in>set (segments (empty_log c)). a < length (heap (empty_log c))"
      by (simp add: empty_log_def)
    show "cfg_ok (Config (empty_log c))" using assms by (simp add: empty_log_def)
    have "Config (empty_log c) = c"
      by (simp add: empty_log_def)
    then show "\<forall>s\<in>set (segs (empty_log c)). seg_wf s \<and> config s = Config (empty_log c)"
      by simp
    show "chained (segs (empty_log c))" by simp
    show "distinct (map fst (empty_dir c))" by (simp add: empty_dir_def)
    show "set (map fst (empty_dir c))
            = (\<Union>b\<in>set (map baseOffset (segs (empty_log c))). {store_name b, index_name b})"
      by (simp add: empty_dir_def)
  qed
  show "\<forall>s\<in>set (segs (empty_log c)). seg_data pb Map.empty (empty_dir c) s"
    by (simp add: seg_data_fresh empty_dir_def)
  show "\<And>off v. Map.empty off = Some v \<Longrightarrow>
          \<exists>s\<in>set (segs (empty_log c)). baseOffset s \<le> off \<and> off < nextOffset s"
    by simp
qed

lemma NewLog_empty:
  assumes "cfg_ok (with_defaults c)"
  shows "NewLog [] c = (None, empty_dir (with_defaults c), empty_log (with_defaults c))"
proof -
  let ?c = "with_defaults c"
  have "newSegment [] (InitialOffset ?c) ?c
          = (Inr (fresh_segment (InitialOffset ?c) ?c),
             [] @ [(store_name (InitialOffset ?c), []),
                   (index_name (InitialOffset ?c), replicate (unat (MaxIndexBytes ?c)) 0)])"
    by (rule newSegment_fresh [OF assms]) simp_all
  then show ?thesis
    unfolding NewLog_with_defaults
    by (simp add: Log_setup_def os_ReadDir_def Log_newSegment_def empty_dir_def empty_log_def
             del: with_defaults_simps)
qed

subsection \<open>Opening a segment whatever the configuration\<close>





subsection \<open>The offsets that \<open>Log_Append\<close> gives\<close>




lemma offsets_simps [simp]:
  "offsets [] = []" "offsets (Inr off # ress) = off # offsets ress"
  "offsets (Inl e # ress) = offsets ress"
  by (simp_all add: offsets_def)





section \<open>Offsets of a fresh log\<close>



end
